theory Spec2Isabelle
  imports Complex_Main "HOL-Library.Log_Nat"
begin

section \<open>JavaScript numbers\<close>

text \<open>
  A JavaScript number is an IEEE-754 double. It is modelled by its value: a finite
  number, one of the two infinities, or NaN. An arithmetic operation on finite operands
  yields the exact real result rounded to the nearest double, ties to even, with
  gradual underflow; a rounded result beyond the largest double is an infinity. The one
  thing the model leaves out is the sign of zero: there is a single 0, and a division by
  it takes the sign of the dividend.
\<close>

datatype jsnum = Num real | PosInfinity | NegInfinity | NaN

text \<open>
  \<open>binade x\<close> is the exponent \<open>e\<close> with \<open>2\<^sup>e \<le> |x| < 2\<^sup>e\<^sup>+\<^sup>1\<close>, for \<open>x\<close> other than 0.
\<close>

definition binade :: "real \<Rightarrow> int" where
  "binade x =
     (if 1 \<le> \<bar>x\<bar> then bitlen \<lfloor>\<bar>x\<bar>\<rfloor> - 1 else - bitlen (\<lceil>1 / \<bar>x\<bar>\<rceil> - 1))"

text \<open>
  The doubles around \<open>x\<close> are the multiples of \<open>2 powi ulp_exponent x\<close>: 52 bits below
  the binade for a normal number, and \<open>2\<^sup>-\<^sup>1\<^sup>0\<^sup>7\<^sup>4\<close> in the subnormal range.
\<close>

definition ulp_exponent :: "real \<Rightarrow> int" where
  "ulp_exponent x = max (binade x - 52) (- 1074)"

text \<open>Rounding to the nearest integer, a tie going to the even one.\<close>

definition round_even :: "real \<Rightarrow> int" where
  "round_even q =
     (let f = \<lfloor>q\<rfloor>; d = q - of_int f
      in if d < 1 / 2 then f else if 1 / 2 < d then f + 1 else if even f then f else f + 1)"

text \<open>\<open>rn x\<close>: the multiple of the spacing nearest to \<open>x\<close>, before the range check.\<close>

definition rn :: "real \<Rightarrow> real" where
  "rn x = of_int (round_even (x / 2 powi ulp_exponent x)) * 2 powi ulp_exponent x"

text \<open>The largest double, \<open>(2\<^sup>5\<^sup>3 - 1) * 2\<^sup>9\<^sup>7\<^sup>1\<close>.\<close>

definition max_double :: real where
  "max_double = (2 ^ 53 - 1) * 2 ^ 971"

text \<open>The double (or infinity) that the exact result \<open>x\<close> of an operation becomes.\<close>

definition to_double :: "real \<Rightarrow> jsnum" where
  "to_double x =
     (let r = rn x
      in if max_double < \<bar>r\<bar> then (if 0 < x then PosInfinity else NegInfinity) else Num r)"

text \<open>\<open>a + b\<close> of JavaScript.\<close>

fun js_add :: "jsnum \<Rightarrow> jsnum \<Rightarrow> jsnum" where
  "js_add NaN b = NaN"
| "js_add a NaN = NaN"
| "js_add PosInfinity NegInfinity = NaN"
| "js_add NegInfinity PosInfinity = NaN"
| "js_add PosInfinity b = PosInfinity"
| "js_add NegInfinity b = NegInfinity"
| "js_add a PosInfinity = PosInfinity"
| "js_add a NegInfinity = NegInfinity"
| "js_add (Num x) (Num y) = to_double (x + y)"

text \<open>\<open>a / b\<close> of JavaScript.\<close>

fun js_div :: "jsnum \<Rightarrow> jsnum \<Rightarrow> jsnum" where
  "js_div NaN b = NaN"
| "js_div a NaN = NaN"
| "js_div (Num x) (Num y) =
     (if y = 0 then (if x = 0 then NaN else if 0 < x then PosInfinity else NegInfinity)
      else to_double (x / y))"
| "js_div (Num x) b = Num 0"
| "js_div PosInfinity (Num y) = (if 0 \<le> y then PosInfinity else NegInfinity)"
| "js_div NegInfinity (Num y) = (if 0 \<le> y then NegInfinity else PosInfinity)"
| "js_div a b = NaN"

text \<open>
  A real number is a double when rounding leaves it as it is and it is within range.
\<close>

definition is_double :: "real \<Rightarrow> bool" where
  "is_double x \<longleftrightarrow> rn x = x \<and> \<bar>x\<bar> \<le> max_double"

text \<open>
  The unit roundoff \<open>2\<^sup>-\<^sup>5\<^sup>3\<close>, half the distance from 1 to the next double, and the
  smallest positive double \<open>2\<^sup>-\<^sup>1\<^sup>0\<^sup>7\<^sup>4\<close>, of which every double is a multiple.
\<close>

definition unit_roundoff :: real where
  "unit_roundoff = 2 powi (- 53)"

definition min_subnormal :: real where
  "min_subnormal = 2 powi (- 1074)"

definition on_grid :: "real \<Rightarrow> bool" where
  "on_grid x \<longleftrightarrow> of_int \<lfloor>x / min_subnormal\<rfloor> = x / min_subnormal"

definition is_finite :: "jsnum \<Rightarrow> bool" where
  "is_finite v = (case v of Num x \<Rightarrow> True | _ \<Rightarrow> False)"

text \<open>The value of a finite number; 0 stands in for the values that have none.\<close>

fun val :: "jsnum \<Rightarrow> real" where
  "val (Num x) = x"
| "val v = 0"

section \<open>Decimal rendering of a natural number\<close>

definition digit :: "nat \<Rightarrow> char" where
  "digit d = ''0123456789'' ! d"

fun toString :: "nat \<Rightarrow> string" where
  "toString n = (if n < 10 then [digit n] else toString (n div 10) @ [digit (n mod 10)])"

declare toString.simps [simp del]

section \<open>Style mixer (StyleMixer component)\<close>

text \<open>
  One entry of the \<open>styles\<close> state slot: \<open>{ id, weight, name }\<close>. The field \<open>id\<close>
  is named \<open>style_id\<close> here.
\<close>

record style =
  style_id :: int
  weight :: jsnum
  name :: string

text \<open>The initial value of the slot: \<open>useState([{ id: 1, weight: 0.5, name: 'Style 1' }])\<close>.\<close>

definition initial_styles :: "style list" where
  "initial_styles = [\<lparr>style_id = 1, weight = Num (1 / 2), name = ''Style 1''\<rparr>]"

text \<open>
  \<open>addStyle\<close>: appends an entry when fewer than 4 exist. \<open>now\<close> is the reading of
  \<open>Date.now()\<close>.
\<close>

definition addStyle :: "int \<Rightarrow> style list \<Rightarrow> style list" where
  "addStyle now styles =
     (if length styles < 4
      then styles @ [\<lparr>style_id = now, weight = Num (1 / 2),
                       name = ''Style '' @ toString (length styles + 1)\<rparr>]
      else styles)"

text \<open>\<open>removeStyle\<close>: drops the entries with the given id when more than one entry exists.\<close>

definition removeStyle :: "int \<Rightarrow> style list \<Rightarrow> style list" where
  "removeStyle i styles =
     (if length styles > 1 then filter (\<lambda>s. style_id s \<noteq> i) styles else styles)"

text \<open>
  \<open>updateWeight\<close>: replaces the weight of the entries with the given id. \<open>w\<close> is the
  result of \<open>parseFloat\<close> on the slider's value.
\<close>

definition updateWeight :: "int \<Rightarrow> jsnum \<Rightarrow> style list \<Rightarrow> style list" where
  "updateWeight i w styles = map (\<lambda>s. if style_id s = i then s\<lparr>weight := w\<rparr> else s) styles"

text \<open>
  \<open>normalizeWeights\<close>: \<open>total\<close> is the left-to-right \<open>reduce\<close> from 0; every weight is
  divided by it. There is no test of \<open>total\<close>.
\<close>

definition total_weight :: "style list \<Rightarrow> jsnum" where
  "total_weight styles = foldl (\<lambda>sum s. js_add sum (weight s)) (Num 0) styles"

definition normalizeWeights :: "style list \<Rightarrow> style list" where
  "normalizeWeights styles =
     (let total = total_weight styles
      in map (\<lambda>s. s\<lparr>weight := js_div (weight s) total\<rparr>) styles)"

text \<open>
  \<open>handleMix\<close>: hands the normalized list to \<open>onMixStyles\<close>. The result is the pair of
  the \<open>styles\<close> slot after the call and the list passed to the callback.
\<close>

definition handleMix :: "style list \<Rightarrow> style list \<times> style list" where
  "handleMix styles = (let normalized = normalizeWeights styles in (styles, normalized))"

text \<open>The exact sum of the values of the weights of a list of entries.\<close>

definition weight_sum :: "style list \<Rightarrow> real" where
  "weight_sum styles = sum_list (map (\<lambda>s. val (weight s)) styles)"

text \<open>
  The weight of a mixer entry with a positive weight: a double greater than 0 and, as a
  mixer weight is in the range from 0 to 1, at most 1.
\<close>

definition mixer_weight :: "jsnum \<Rightarrow> bool" where
  "mixer_weight v = (case v of Num w \<Rightarrow> is_double w \<and> 0 < w \<and> w \<le> 1 | _ \<Rightarrow> False)"

definition positive_weights :: "style list \<Rightarrow> bool" where
  "positive_weights styles = list_all (\<lambda>s. mixer_weight (weight s)) styles"

text \<open>The user's actions on the mixer, and the \<open>styles\<close> slot after a sequence of them.\<close>

datatype mixer_action = AddStyle int | RemoveStyle int | UpdateWeight int jsnum | Mix

fun mixer_step :: "style list \<Rightarrow> mixer_action \<Rightarrow> style list" where
  "mixer_step styles (AddStyle now) = addStyle now styles"
| "mixer_step styles (RemoveStyle i) = removeStyle i styles"
| "mixer_step styles (UpdateWeight i w) = updateWeight i w styles"
| "mixer_step styles Mix = fst (handleMix styles)"

definition mixer_run :: "style list \<Rightarrow> mixer_action list \<Rightarrow> style list" where
  "mixer_run styles actions = foldl mixer_step styles actions"

text \<open>
  \<open>fresh_clock styles actions\<close>: along the run, every reading of \<open>Date.now()\<close> differs
  from the ids of the entries present when it is taken.
\<close>

fun fresh_clock :: "style list \<Rightarrow> mixer_action list \<Rightarrow> bool" where
  "fresh_clock styles [] = True"
| "fresh_clock styles (a # actions) =
     ((case a of AddStyle now \<Rightarrow> now \<notin> set (map style_id styles) | _ \<Rightarrow> True)
      \<and> fresh_clock (mixer_step styles a) actions)"

section \<open>HTTP gateway (services/api.js)\<close>

text \<open>
  \<open>API_BASE_URL\<close> is \<open>process.env.REACT_APP_API_URL || 'http://localhost:5000'\<close>: an
  unset or empty variable gives the default.
\<close>

definition API_BASE_URL :: "string option \<Rightarrow> string" where
  "API_BASE_URL env =
     (case env of None \<Rightarrow> ''http://localhost:5000''
      | Some u \<Rightarrow> if u = [] then ''http://localhost:5000'' else u)"

text \<open>A \<open>File\<close> chosen by the user, identified by its name.\<close>

type_synonym js_file = string

datatype http_method = GET | POST | DELETE

text \<open>
  The body of a request. \<open>TransferData\<close> carries \<open>content_image\<close>, \<open>style_image\<close>,
  \<open>intensity\<close> and, when the caller sets it, \<open>quality\<close>.
\<close>

datatype body =
    NoBody
  | FormData js_file
  | TransferData string string jsnum "string option"

text \<open>A request handed to the axios client: method, path, body, timeout in milliseconds.\<close>

datatype request = Request http_method string body nat

text \<open>
  What an awaited call settles to: the promise resolves with a payload, or rejects with an
  error whose \<open>message\<close> is kept. Axios rejects on a network error, on a timeout and on a
  status outside 2xx.
\<close>

datatype 'a response = Resolved 'a | Rejected string

definition uploadImage :: "js_file \<Rightarrow> request" where
  "uploadImage f = Request POST ''/api/upload'' (FormData f) 300000"

definition styleTransfer :: "body \<Rightarrow> request" where
  "styleTransfer data = Request POST ''/api/transfer'' data 600000"

definition quickTransfer :: "body \<Rightarrow> request" where
  "quickTransfer data = Request POST ''/api/quick-transfer'' data 300000"

definition deleteFromGallery :: "string \<Rightarrow> request" where
  "deleteFromGallery filename = Request DELETE (''/api/gallery/'' @ filename) NoBody 300000"

definition getImageUrl :: "string option \<Rightarrow> string \<Rightarrow> string" where
  "getImageUrl env filename = API_BASE_URL env @ ''/api/image/'' @ filename"

section \<open>Transfer workflow (App component)\<close>

text \<open>
  An uploaded image, \<open>{ filename, path, preview }\<close>; \<open>preview\<close> is the object URL made by
  \<open>URL.createObjectURL\<close>.
\<close>

type_synonym object_url = string

record image_ref =
  filename :: string
  path :: string
  preview :: object_url

text \<open>
  The result slot, \<open>{ filename, url, processingTime }\<close>; its \<open>filename\<close> is named
  \<open>result_filename\<close> here.
\<close>

record result_image =
  result_filename :: string
  url :: string
  processingTime :: string

datatype backend_status = Checking | Online | Offline

text \<open>The state slots of \<open>App\<close>, with the initial values of their \<open>useState\<close> calls.\<close>

record app_state =
  backendStatus :: backend_status
  contentImage :: "image_ref option"
  styleImage :: "image_ref option"
  resultImage :: "result_image option"
  isProcessing :: bool
  processingProgress :: nat
  styleIntensity :: jsnum
  quality :: string
  error :: "string option"
  showGallery :: bool

definition initial_state :: app_state where
  "initial_state =
     \<lparr>backendStatus = Checking, contentImage = None, styleImage = None, resultImage = None,
      isProcessing = False, processingProgress = 0, styleIntensity = Num 1,
      quality = ''standard'', error = None, showGallery = False\<rparr>"

text \<open>The payload of a resolved upload, \<open>response.data.data\<close>: \<open>{ filename, path }\<close>.\<close>

record upload_payload =
  uploaded_filename :: string
  uploaded_path :: string

text \<open>
  The payload of a resolved transfer, \<open>response.data\<close>: \<open>success\<close>, and under \<open>data\<close> the
  fields \<open>output_image\<close> and \<open>processing_time\<close>.
\<close>

record transfer_payload =
  success :: bool
  output_image :: string
  processing_time :: string

text \<open>
  The object URLs of the document that are live: made by \<open>URL.createObjectURL\<close> and not
  revoked. \<open>createObjectURL\<close> registers the URL the browser picks (\<open>fresh\<close>);
  \<open>revokeObjectURL\<close> releases one.
\<close>

definition createObjectURL :: "object_url \<Rightarrow> object_url list \<Rightarrow> object_url \<times> object_url list" where
  "createObjectURL fresh live = (fresh, fresh # live)"

definition revokeObjectURL :: "object_url \<Rightarrow> object_url list \<Rightarrow> object_url list" where
  "revokeObjectURL u live = removeAll u live"

text \<open>
  \<open>downloadImage\<close> of the gateway: fetches the image as a blob, makes an object URL for
  it, clicks a link to it and revokes the URL; a failed fetch is thrown to the caller. It
  is the one place in the client that calls \<open>revokeObjectURL\<close>. The result is the error
  message, or the live object URLs after the call.
\<close>

definition downloadImage ::
  "string \<Rightarrow> unit response \<Rightarrow> object_url \<Rightarrow> object_url list \<Rightarrow> string + object_url list" where
  "downloadImage fn resp fresh live =
     (case resp of
        Resolved _ \<Rightarrow>
          (let (u, live') = createObjectURL fresh live in Inr (revokeObjectURL u live'))
      | Rejected msg \<Rightarrow> Inl msg)"

text \<open>
  \<open>handleContentUpload\<close> and \<open>handleStyleUpload\<close> up to their \<open>await\<close>: clear the error
  and send the file.
\<close>

definition handleContentUpload_begin :: "js_file \<Rightarrow> app_state \<Rightarrow> app_state \<times> request" where
  "handleContentUpload_begin f s = (s\<lparr>error := None\<rparr>, uploadImage f)"

definition handleStyleUpload_begin :: "js_file \<Rightarrow> app_state \<Rightarrow> app_state \<times> request" where
  "handleStyleUpload_begin f s = (s\<lparr>error := None\<rparr>, uploadImage f)"

text \<open>
  The two handlers from their \<open>await\<close> on: a resolved upload stores the new image with a
  new object URL for the file, a rejected one sets the error. Neither calls
  \<open>revokeObjectURL\<close>. The handlers work on the state and the live object URLs.
\<close>

definition handleContentUpload_settle ::
  "upload_payload response \<Rightarrow> object_url \<Rightarrow> app_state \<times> object_url list
     \<Rightarrow> app_state \<times> object_url list" where
  "handleContentUpload_settle resp fresh w =
     (case resp of
        Resolved p \<Rightarrow>
          (let (u, live') = createObjectURL fresh (snd w)
           in ((fst w)\<lparr>contentImage := Some \<lparr>filename = uploaded_filename p,
                                             path = uploaded_path p, preview = u\<rparr>\<rparr>,
               live'))
      | Rejected msg \<Rightarrow>
          ((fst w)\<lparr>error := Some (''Failed to upload content image: '' @ msg)\<rparr>, snd w))"

definition handleStyleUpload_settle ::
  "upload_payload response \<Rightarrow> object_url \<Rightarrow> app_state \<times> object_url list
     \<Rightarrow> app_state \<times> object_url list" where
  "handleStyleUpload_settle resp fresh w =
     (case resp of
        Resolved p \<Rightarrow>
          (let (u, live') = createObjectURL fresh (snd w)
           in ((fst w)\<lparr>styleImage := Some \<lparr>filename = uploaded_filename p,
                                           path = uploaded_path p, preview = u\<rparr>\<rparr>,
               live'))
      | Rejected msg \<Rightarrow>
          ((fst w)\<lparr>error := Some (''Failed to upload style image: '' @ msg)\<rparr>, snd w))"

text \<open>
  The whole calls, with nothing else running between the request and its outcome. The
  result is the state, the live object URLs and the request sent.
\<close>

definition handleContentUpload ::
  "js_file \<Rightarrow> upload_payload response \<Rightarrow> object_url \<Rightarrow> app_state \<times> object_url list
     \<Rightarrow> app_state \<times> object_url list \<times> request list" where
  "handleContentUpload f resp fresh w =
     (let (s, r) = handleContentUpload_begin f (fst w);
          (s', live') = handleContentUpload_settle resp fresh (s, snd w)
      in (s', live', [r]))"

definition handleStyleUpload ::
  "js_file \<Rightarrow> upload_payload response \<Rightarrow> object_url \<Rightarrow> app_state \<times> object_url list
     \<Rightarrow> app_state \<times> object_url list \<times> request list" where
  "handleStyleUpload f resp fresh w =
     (let (s, r) = handleStyleUpload_begin f (fst w);
          (s', live') = handleStyleUpload_settle resp fresh (s, snd w)
      in (s', live', [r]))"

text \<open>
  \<open>handleStyleTransfer\<close> up to its \<open>await\<close>: without both images it sets the error and
  returns; otherwise it sets the processing flag, clears the error and the progress, and
  sends the quick or the standard request. The second component is the request the
  function is left waiting on, if any. The flag \<open>isProcessing\<close> is not read.
\<close>

definition handleStyleTransfer_begin :: "bool \<Rightarrow> app_state \<Rightarrow> app_state \<times> request option" where
  "handleStyleTransfer_begin quickMode s =
     (case (contentImage s, styleImage s) of
        (Some c, Some st) \<Rightarrow>
          (s\<lparr>isProcessing := True, error := None, processingProgress := 0\<rparr>,
           Some (if quickMode
                 then quickTransfer (TransferData (path c) (path st) (styleIntensity s) None)
                 else styleTransfer
                        (TransferData (path c) (path st) (styleIntensity s) (Some (quality s)))))
      | _ \<Rightarrow> (s\<lparr>error := Some ''Please upload both content and style images''\<rparr>, None))"

text \<open>
  \<open>handleStyleTransfer\<close> from its \<open>await\<close> on: a resolved response with \<open>success\<close> stores
  the result and sets the progress to 100; a resolved response without \<open>success\<close> changes
  nothing; a rejection sets the error. The \<open>finally\<close> block clears the processing flag.
\<close>

definition handleStyleTransfer_resume ::
  "string option \<Rightarrow> transfer_payload response \<Rightarrow> app_state \<Rightarrow> app_state" where
  "handleStyleTransfer_resume env resp s =
     (let s' = (case resp of
                  Resolved p \<Rightarrow>
                    if success p
                    then s\<lparr>resultImage :=
                             Some \<lparr>result_filename = output_image p,
                                   url = getImageUrl env (output_image p),
                                   processingTime = processing_time p\<rparr>,
                           processingProgress := 100\<rparr>
                    else s
                | Rejected msg \<Rightarrow> s\<lparr>error := Some (''Style transfer failed: '' @ msg)\<rparr>)
      in s'\<lparr>isProcessing := False\<rparr>)"

text \<open>The whole call, with nothing else running between the request and its outcome.\<close>

definition handleStyleTransfer ::
  "bool \<Rightarrow> string option \<Rightarrow> transfer_payload response \<Rightarrow> app_state
     \<Rightarrow> app_state \<times> request option" where
  "handleStyleTransfer quickMode env resp s =
     (case handleStyleTransfer_begin quickMode s of
        (s', None) \<Rightarrow> (s', None)
      | (s', Some r) \<Rightarrow> (handleStyleTransfer_resume env resp s', Some r))"

definition handleReset :: "app_state \<Rightarrow> app_state" where
  "handleReset s =
     s\<lparr>contentImage := None, styleImage := None, resultImage := None, error := None,
       processingProgress := 0\<rparr>"

text \<open>The intensity slider's \<open>onChange\<close>: stores the parsed value of the control.\<close>

definition setStyleIntensity :: "jsnum \<Rightarrow> app_state \<Rightarrow> app_state" where
  "setStyleIntensity v s = s\<lparr>styleIntensity := v\<rparr>"

text \<open>
  The \<open>disabled\<close> attribute of the two transfer buttons,
  \<open>!contentImage || !styleImage || isProcessing\<close>. A click on a disabled button runs no
  handler.
\<close>

definition transferDisabled :: "app_state \<Rightarrow> bool" where
  "transferDisabled s \<longleftrightarrow> contentImage s = None \<or> styleImage s = None \<or> isProcessing s"

definition clickTransfer :: "bool \<Rightarrow> app_state \<Rightarrow> app_state \<times> request option" where
  "clickTransfer quickMode s =
     (if transferDisabled s then (s, None) else handleStyleTransfer_begin quickMode s)"

text \<open>
  The page as a whole: the state of \<open>App\<close>, the live object URLs of the document, and the
  transfer requests sent and not yet settled.
\<close>

record world =
  app :: app_state
  liveURLs :: "object_url list"
  pending :: "request list"

definition initial_world :: world where
  "initial_world = \<lparr>app = initial_state, liveURLs = [], pending = []\<rparr>"

text \<open>
  What can happen to the page. The uploaders, the slider and the reset button are
  disabled while \<open>isProcessing\<close> is set, and the reset buttons are rendered only when an
  image or a result is present. An upload settles with its outcome and the object URL the
  browser would make for the file; it may settle at any time, also while a transfer is
  under way. \<open>TransferSettles\<close> is the outcome of the oldest pending transfer request.
\<close>

datatype ui_event =
    DropContent js_file
  | ContentUploadSettles "upload_payload response" object_url
  | DropStyle js_file
  | StyleUploadSettles "upload_payload response" object_url
  | MoveIntensity jsnum
  | ClickTransfer bool
  | TransferSettles "string option" "transfer_payload response"
  | ClickReset

fun ui_step :: "world \<Rightarrow> ui_event \<Rightarrow> world" where
  "ui_step w (DropContent f) =
     (if isProcessing (app w) then w
      else w\<lparr>app := fst (handleContentUpload_begin f (app w))\<rparr>)"
| "ui_step w (ContentUploadSettles resp fresh) =
     (case handleContentUpload_settle resp fresh (app w, liveURLs w) of
        (s, live) \<Rightarrow> w\<lparr>app := s, liveURLs := live\<rparr>)"
| "ui_step w (DropStyle f) =
     (if isProcessing (app w) then w
      else w\<lparr>app := fst (handleStyleUpload_begin f (app w))\<rparr>)"
| "ui_step w (StyleUploadSettles resp fresh) =
     (case handleStyleUpload_settle resp fresh (app w, liveURLs w) of
        (s, live) \<Rightarrow> w\<lparr>app := s, liveURLs := live\<rparr>)"
| "ui_step w (MoveIntensity v) =
     (if isProcessing (app w) then w else w\<lparr>app := setStyleIntensity v (app w)\<rparr>)"
| "ui_step w (ClickTransfer quickMode) =
     (case clickTransfer quickMode (app w) of
        (s, None) \<Rightarrow> w\<lparr>app := s\<rparr>
      | (s, Some r) \<Rightarrow> w\<lparr>app := s, pending := pending w @ [r]\<rparr>)"
| "ui_step w (TransferSettles env resp) =
     (case pending w of
        [] \<Rightarrow> w
      | r # rs \<Rightarrow> w\<lparr>app := handleStyleTransfer_resume env resp (app w), pending := rs\<rparr>)"
| "ui_step w ClickReset =
     (if isProcessing (app w)
         \<or> (contentImage (app w) = None \<and> styleImage (app w) = None
             \<and> resultImage (app w) = None)
      then w
      else w\<lparr>app := handleReset (app w)\<rparr>)"

definition ui_run :: "world \<Rightarrow> ui_event list \<Rightarrow> world" where
  "ui_run w events = foldl ui_step w events"

text \<open>At most one transfer is pending, and the processing flag is set exactly while one is.\<close>

definition single_flight :: "world \<Rightarrow> bool" where
  "single_flight w \<longleftrightarrow> length (pending w) \<le> 1 \<and> (isProcessing (app w) \<longleftrightarrow> pending w \<noteq> [])"

section \<open>Gallery (Gallery component)\<close>

text \<open>
  One image of the listing returned by the backend. The component reads its \<open>filename\<close>,
  named \<open>entry_filename\<close> here; \<open>entry_info\<close> stands for the rest of the object.
\<close>

record gallery_entry =
  entry_filename :: string
  entry_info :: string

record gallery_state =
  images :: "gallery_entry list"
  loading :: bool
  selectedImage :: "gallery_entry option"

text \<open>
  \<open>handleDelete\<close> from its \<open>await\<close> on. \<open>captured\<close> is the \<open>images\<close> value of the render
  the handler was made in. A resolved request stores the captured list without the
  entries of that filename and clears the selection; a rejection raises the alert and
  sets nothing. The second component is the list of alerts shown.
\<close>

definition handleDelete_settle ::
  "unit response \<Rightarrow> string \<Rightarrow> gallery_entry list \<Rightarrow> gallery_state
     \<Rightarrow> gallery_state \<times> string list" where
  "handleDelete_settle resp fn captured g =
     (case resp of
        Resolved _ \<Rightarrow>
          (g\<lparr>images := filter (\<lambda>img. entry_filename img \<noteq> fn) captured,
             selectedImage := None\<rparr>, [])
      | Rejected msg \<Rightarrow> (g, [''Failed to delete image'']))"

text \<open>
  \<open>handleDelete\<close>, with nothing else running between the request and its outcome.
  \<open>confirmed\<close> is the answer to \<open>window.confirm\<close>. The result is the state, the requests
  sent and the alerts shown.
\<close>

definition handleDelete ::
  "bool \<Rightarrow> unit response \<Rightarrow> string \<Rightarrow> gallery_state
     \<Rightarrow> gallery_state \<times> request list \<times> string list" where
  "handleDelete confirmed resp fn g =
     (if confirmed
      then (case handleDelete_settle resp fn (images g) g of
              (g', alerts) \<Rightarrow> (g', [deleteFromGallery fn], alerts))
      else (g, [], []))"

section \<open>Sample values\<close>

definition two_styles :: "style list" where
  "two_styles = [\<lparr>style_id = 1, weight = Num (1 / 2), name = ''Style 1''\<rparr>,
                 \<lparr>style_id = 1700000000000, weight = Num (1 / 4), name = ''Style 2''\<rparr>]"

definition four_styles :: "style list" where
  "four_styles = [\<lparr>style_id = 1, weight = Num (1 / 2), name = ''Style 1''\<rparr>,
                  \<lparr>style_id = 1700000000000, weight = Num (1 / 2), name = ''Style 2''\<rparr>,
                  \<lparr>style_id = 1700000000500, weight = Num (1 / 2), name = ''Style 3''\<rparr>,
                  \<lparr>style_id = 1700000000900, weight = Num (1 / 2), name = ''Style 4''\<rparr>]"

text \<open>Both sliders of a two-entry mixer moved to 0.\<close>

definition zero_styles :: "style list" where
  "zero_styles = [\<lparr>style_id = 1, weight = Num 0, name = ''Style 1''\<rparr>,
                  \<lparr>style_id = 1700000000000, weight = Num 0, name = ''Style 2''\<rparr>]"

definition cat_ref :: image_ref where
  "cat_ref = \<lparr>filename = ''cat.png'', path = ''uploads/cat.png'', preview = ''blob:1''\<rparr>"

definition vangogh_ref :: image_ref where
  "vangogh_ref =
     \<lparr>filename = ''vangogh.png'', path = ''uploads/vangogh.png'', preview = ''blob:2''\<rparr>"

text \<open>Both images uploaded, nothing submitted yet.\<close>

definition ready_state :: app_state where
  "ready_state = initial_state\<lparr>contentImage := Some cat_ref, styleImage := Some vangogh_ref\<rparr>"

definition ready_world :: world where
  "ready_world = \<lparr>app = ready_state, liveURLs = [''blob:2'', ''blob:1''], pending = []\<rparr>"

definition entry_a :: gallery_entry where
  "entry_a = \<lparr>entry_filename = ''a.png'', entry_info = ''first''\<rparr>"

definition entry_b :: gallery_entry where
  "entry_b = \<lparr>entry_filename = ''b.png'', entry_info = ''second''\<rparr>"

text \<open>A gallery of two images with the preview of the second one open.\<close>

definition gallery_ab :: gallery_state where
  "gallery_ab = \<lparr>images = [entry_a, entry_b], loading = False, selectedImage = Some entry_b\<rparr>"

text \<open>Both images uploaded and a transfer under way.\<close>

definition processing_state :: app_state where
  "processing_state = ready_state\<lparr>isProcessing := True\<rparr>"

text \<open>Both images uploaded and the intensity at 2.5.\<close>

definition intense_state :: app_state where
  "intense_state = setStyleIntensity (Num (5 / 2)) ready_state"

text \<open>A 2xx response whose payload says \<open>success: false\<close>.\<close>

definition refused_payload :: transfer_payload where
  "refused_payload = \<lparr>success = False, output_image = [], processing_time = []\<rparr>"

definition dog_payload :: upload_payload where
  "dog_payload = \<lparr>uploaded_filename = ''dog.png'', uploaded_path = ''uploads/dog.png''\<rparr>"

text \<open>Two weights far outside the range of a mixer weight, and a mixer with a weight at the
  smallest positive double.\<close>

definition huge_styles :: "style list" where
  "huge_styles = [\<lparr>style_id = 1, weight = Num (2 ^ 1023), name = ''Style 1''\<rparr>,
                  \<lparr>style_id = 1700000000000, weight = Num (2 ^ 1023), name = ''Style 2''\<rparr>]"

definition tiny_styles :: "style list" where
  "tiny_styles = [\<lparr>style_id = 1, weight = Num (1 / 2 ^ 1074), name = ''Style 1''\<rparr>,
                  \<lparr>style_id = 1700000000000, weight = Num 1, name = ''Style 2''\<rparr>,
                  \<lparr>style_id = 1700000000500, weight = Num 1, name = ''Style 3''\<rparr>]"

text \<open>
  Two entries added within the same millisecond, so that \<open>Date.now()\<close> reads the same
  for both; then the first entry and one of the new ones are removed.
\<close>

definition same_millisecond :: "mixer_action list" where
  "same_millisecond =
     [AddStyle 1700000000000, AddStyle 1700000000000, RemoveStyle 1, RemoveStyle 1700000000000]"

section \<open>Properties of the rounding\<close>

text \<open>The binade of a number other than 0 brackets it between two powers of 2.\<close>

lemma binade_bounds:
  assumes "x \<noteq> 0"
  shows "2 powi binade x \<le> \<bar>x\<bar>" and "\<bar>x\<bar> < 2 powi (binade x + 1)"
proof -
  have "2 powi binade x \<le> \<bar>x\<bar> \<and> \<bar>x\<bar> < 2 powi (binade x + 1)"
  proof (cases "1 \<le> \<bar>x\<bar>")
    case True
    let ?n = "\<lfloor>\<bar>x\<bar>\<rfloor>"
    have n: "1 \<le> ?n" using True by simp
    then have pos: "0 < ?n" by simp
    from bitlen_bounds[OF pos]
    have b: "2 ^ nat (bitlen ?n - 1) \<le> ?n" "?n < 2 ^ nat (bitlen ?n)" by auto
    have k: "1 \<le> bitlen ?n" using pos by (auto simp: bitlen_alt_def)
    have e: "binade x = bitlen ?n - 1" using True by (simp add: binade_def)
    have "(2::real) powi (bitlen ?n - 1) = 2 ^ nat (bitlen ?n - 1)"
      using k by (simp add: power_int_def)
    also have "\<dots> = of_int (2 ^ nat (bitlen ?n - 1))" by simp
    also have "\<dots> \<le> of_int ?n" using b(1) by (simp only: of_int_le_iff)
    also have "\<dots> \<le> \<bar>x\<bar>" by simp
    finally have lo: "2 powi binade x \<le> \<bar>x\<bar>" by (simp add: e)
    have "?n + 1 \<le> 2 ^ nat (bitlen ?n)" using b(2) by simp
    then have "of_int (?n + 1) \<le> (of_int (2 ^ nat (bitlen ?n)) :: real)"
      by (simp only: of_int_le_iff)
    then have "of_int ?n + 1 \<le> (2::real) ^ nat (bitlen ?n)" by simp
    moreover have "\<bar>x\<bar> < of_int ?n + 1" by linarith
    ultimately have "\<bar>x\<bar> < 2 ^ nat (bitlen ?n)" by linarith
    also have "\<dots> = 2 powi (bitlen ?n)" using k by (simp add: power_int_def)
    finally have "\<bar>x\<bar> < 2 powi (binade x + 1)" by (simp add: e)
    with lo show ?thesis by simp
  next
    case False
    let ?y = "1 / \<bar>x\<bar>"
    let ?m = "\<lceil>?y\<rceil> - 1"
    have x0: "0 < \<bar>x\<bar>" using assms by simp
    have y1: "1 < ?y" using False x0 by simp
    then have "2 \<le> \<lceil>?y\<rceil>" by (simp add: le_ceiling_iff)
    then have pos: "0 < ?m" by simp
    have my: "of_int ?m < ?y" "?y \<le> of_int ?m + 1" by linarith+
    from bitlen_bounds[OF pos]
    have b: "2 ^ nat (bitlen ?m - 1) \<le> ?m" "?m < 2 ^ nat (bitlen ?m)" by auto
    have k: "1 \<le> bitlen ?m" using pos by (auto simp: bitlen_alt_def)
    have e: "binade x = - bitlen ?m" using False by (simp add: binade_def)
    have "?m + 1 \<le> 2 ^ nat (bitlen ?m)" using b(2) by simp
    then have "of_int (?m + 1) \<le> (of_int (2 ^ nat (bitlen ?m)) :: real)"
      by (simp only: of_int_le_iff)
    then have "of_int ?m + 1 \<le> (2::real) ^ nat (bitlen ?m)" by simp
    then have "?y \<le> 2 ^ nat (bitlen ?m)" using my(2) by linarith
    then have "1 / 2 ^ nat (bitlen ?m) \<le> \<bar>x\<bar>" using x0 by (simp add: field_simps)
    moreover have "(2::real) powi (- bitlen ?m) = 1 / 2 ^ nat (bitlen ?m)"
      using k by (simp add: power_int_def field_simps)
    ultimately have lo: "2 powi binade x \<le> \<bar>x\<bar>" by (simp add: e)
    have "(of_int (2 ^ nat (bitlen ?m - 1)) :: real) \<le> of_int ?m"
      using b(1) by (simp only: of_int_le_iff)
    then have "(2::real) ^ nat (bitlen ?m - 1) \<le> of_int ?m" by simp
    then have "2 ^ nat (bitlen ?m - 1) < ?y" using my(1) by linarith
    then have "\<bar>x\<bar> < 1 / 2 ^ nat (bitlen ?m - 1)" using x0 by (simp add: field_simps)
    moreover have "(2::real) powi (- bitlen ?m + 1) = 1 / 2 ^ nat (bitlen ?m - 1)"
    proof (cases "bitlen ?m = 1")
      case True
      then show ?thesis by simp
    next
      case False
      with k have "- bitlen ?m + 1 < 0" by simp
      moreover have "nat (- (- bitlen ?m + 1)) = nat (bitlen ?m - 1)" by simp
      ultimately show ?thesis by (simp add: power_int_def field_simps)
    qed
    ultimately have "\<bar>x\<bar> < 2 powi (binade x + 1)" by (simp add: e)
    with lo show ?thesis by simp
  qed
  then show "2 powi binade x \<le> \<bar>x\<bar>" and "\<bar>x\<bar> < 2 powi (binade x + 1)" by simp_all
qed

lemma round_even_error: "\<bar>of_int (round_even q) - q\<bar> \<le> 1 / 2"
  unfolding round_even_def Let_def by (auto simp: abs_le_iff)

lemma round_even_of_int: "round_even (of_int k) = k"
  by (simp add: round_even_def)

lemma round_even_nonneg: "0 \<le> q \<Longrightarrow> 0 \<le> round_even q"
  unfolding round_even_def Let_def by auto

lemma powi_add2: "(2::real) powi (a + b) = 2 powi a * 2 powi b"
  by (rule power_int_add) simp

lemma powi_half: "(2::real) powi a / 2 = 2 powi (a + (- 1))"
  by (simp only: powi_add2) simp

lemma min_subnormal_pos: "0 < min_subnormal"
  by (simp only: min_subnormal_def zero_less_power_int zero_less_numeral)

lemma rn_error_half: "\<bar>rn x - x\<bar> \<le> 2 powi ulp_exponent x / 2"
proof -
  let ?p = "(2::real) powi ulp_exponent x"
  let ?q = "x / ?p"
  have p: "0 < ?p" by simp
  have "rn x - x = (of_int (round_even ?q) - ?q) * ?p"
    using p by (simp add: rn_def algebra_simps)
  then have "\<bar>rn x - x\<bar> = \<bar>of_int (round_even ?q) - ?q\<bar> * ?p"
    using p by (simp add: abs_mult)
  also have "\<dots> \<le> 1 / 2 * ?p"
    using round_even_error[of ?q] p by (intro mult_right_mono) simp_all
  finally show ?thesis by simp
qed

lemma rn_zero: "rn 0 = 0"
  by (simp add: rn_def round_even_def)

lemma rn_rel_normal:
  assumes "x \<noteq> 0" "- 1074 \<le> binade x - 52"
  shows "\<bar>rn x - x\<bar> \<le> unit_roundoff * \<bar>x\<bar>"
proof -
  have e: "ulp_exponent x = binade x - 52" using assms(2) by (simp add: ulp_exponent_def)
  have "binade x - 52 + (- 1) = binade x + (- 53)" by simp
  then have "(2::real) powi ulp_exponent x / 2 = 2 powi (binade x + (- 53))"
    by (simp only: e powi_half)
  also have "\<dots> = 2 powi binade x * unit_roundoff"
    by (simp only: powi_add2 unit_roundoff_def)
  also have "\<dots> \<le> \<bar>x\<bar> * unit_roundoff"
    using binade_bounds(1)[OF assms(1)]
    by (intro mult_right_mono) (simp_all add: unit_roundoff_def)
  finally show ?thesis using rn_error_half[of x] by (simp add: mult.commute)
qed

lemma rn_abs_error: "\<bar>rn x - x\<bar> \<le> unit_roundoff * \<bar>x\<bar> + min_subnormal / 2"
proof (cases "x \<noteq> 0 \<and> - 1074 \<le> binade x - 52")
  case True
  then have "\<bar>rn x - x\<bar> \<le> unit_roundoff * \<bar>x\<bar>" by (simp add: rn_rel_normal)
  moreover have "0 \<le> min_subnormal / 2" using min_subnormal_pos by simp
  ultimately show ?thesis by linarith
next
  case False
  show ?thesis
  proof (cases "x = 0")
    case True
    then show ?thesis using min_subnormal_pos by (simp add: rn_zero)
  next
    case x: False
    with False have e: "ulp_exponent x = - 1074" by (simp add: ulp_exponent_def)
    have "\<bar>rn x - x\<bar> \<le> min_subnormal / 2"
      using rn_error_half[of x] by (simp only: e min_subnormal_def)
    moreover have "0 \<le> unit_roundoff * \<bar>x\<bar>" by (simp add: unit_roundoff_def)
    ultimately show ?thesis by linarith
  qed
qed

lemma on_grid_iff: "on_grid x \<longleftrightarrow> (\<exists>k::int. x = of_int k * min_subnormal)"
proof
  assume "on_grid x"
  then have "of_int \<lfloor>x / min_subnormal\<rfloor> = x / min_subnormal"
    by (simp only: on_grid_def)
  then have "of_int \<lfloor>x / min_subnormal\<rfloor> * min_subnormal = x"
    using min_subnormal_pos by (simp only: simp_thms) simp
  then have "x = of_int \<lfloor>x / min_subnormal\<rfloor> * min_subnormal" by (rule sym)
  then show "\<exists>k::int. x = of_int k * min_subnormal" ..
next
  assume "\<exists>k::int. x = of_int k * min_subnormal"
  then obtain k :: int where "x = of_int k * min_subnormal" ..
  then have "x / min_subnormal = of_int k" using min_subnormal_pos by simp
  then show "on_grid x" by (simp only: on_grid_def floor_of_int)
qed

lemma on_grid_add: "on_grid a \<Longrightarrow> on_grid b \<Longrightarrow> on_grid (a + b)"
proof -
  assume "on_grid a" "on_grid b"
  then obtain k l :: int where "a = of_int k * min_subnormal" "b = of_int l * min_subnormal"
    unfolding on_grid_iff by blast
  then have "a + b = of_int (k + l) * min_subnormal" by (simp add: distrib_right)
  then show ?thesis unfolding on_grid_iff ..
qed

lemma on_grid_zero: "on_grid 0"
  unfolding on_grid_iff by (rule exI[of _ 0]) simp

lemma rn_on_grid: "on_grid (rn x)"
proof -
  let ?e = "ulp_exponent x"
  have e: "0 \<le> ?e + 1074" by (simp add: ulp_exponent_def)
  have "?e = (?e + 1074) + (- 1074)" by simp
  then have "(2::real) powi ?e = 2 powi (?e + 1074) * min_subnormal"
    by (simp only: min_subnormal_def powi_add2[symmetric])
  also have "(2::real) powi (?e + 1074) = 2 ^ nat (?e + 1074)"
    using e by (rule power_int_nonneg_exp)
  also have "\<dots> = of_int (2 ^ nat (?e + 1074))" by simp
  finally have "rn x = of_int (round_even (x / 2 powi ?e) * 2 ^ nat (?e + 1074)) * min_subnormal"
    by (simp only: rn_def of_int_mult mult.assoc)
  then show ?thesis unfolding on_grid_iff ..
qed

lemma is_double_on_grid: "is_double x \<Longrightarrow> on_grid x"
  using rn_on_grid[of x] by (simp add: is_double_def)

lemma rn_exact_subnormal:
  assumes "on_grid x" "binade x - 52 < - 1074"
  shows "rn x = x"
proof -
  have e: "ulp_exponent x = - 1074" using assms(2) by (simp add: ulp_exponent_def)
  from assms(1) obtain k :: int where k: "x = of_int k * min_subnormal"
    unfolding on_grid_iff ..
  then have "x / min_subnormal = of_int k" using min_subnormal_pos by simp
  then have "round_even (x / 2 powi ulp_exponent x) = k"
    by (simp only: e min_subnormal_def[symmetric] round_even_of_int)
  then have "rn x = of_int k * min_subnormal"
    by (simp only: rn_def e min_subnormal_def[symmetric])
  then show ?thesis by (simp only: k)
qed

lemma rn_rel_on_grid:
  assumes "on_grid x"
  shows "\<bar>rn x - x\<bar> \<le> unit_roundoff * \<bar>x\<bar>"
proof (cases "x = 0")
  case True
  then show ?thesis by (simp add: rn_zero)
next
  case False
  show ?thesis
  proof (cases "- 1074 \<le> binade x - 52")
    case True
    with False show ?thesis by (rule rn_rel_normal)
  next
    case False
    then have "rn x = x" using assms by (intro rn_exact_subnormal) simp_all
    then show ?thesis by (simp add: unit_roundoff_def)
  qed
qed

lemma rn_nonneg: "0 \<le> x \<Longrightarrow> 0 \<le> rn x"
  unfolding rn_def by (intro mult_nonneg_nonneg) (simp_all add: round_even_nonneg)

lemma to_double_Num: "\<bar>rn x\<bar> \<le> max_double \<Longrightarrow> to_double x = Num (rn x)"
  by (simp add: to_double_def Let_def)

subsection \<open>Computing roundings\<close>

lemma powi_less_exp:
  assumes "(2::real) powi a < 2 powi b"
  shows "a < b"
proof (rule ccontr)
  assume "\<not> a < b"
  then have "b \<le> a" by simp
  then have "(2::real) powi b \<le> 2 powi a" by (rule power_int_increasing) simp
  with assms show False by simp
qed

lemma binade_eqI:
  assumes "2 powi b \<le> \<bar>x\<bar>" "\<bar>x\<bar> < 2 powi (b + 1)"
  shows "binade x = b"
proof -
  have "0 < (2::real) powi b" by simp
  then have "0 < \<bar>x\<bar>" using assms(1) by (rule less_le_trans)
  then have x: "x \<noteq> 0" by simp
  from binade_bounds(1)[OF x] assms(2) have "(2::real) powi binade x < 2 powi (b + 1)"
    by (rule le_less_trans)
  then have "binade x < b + 1" by (rule powi_less_exp)
  moreover from assms(1) binade_bounds(2)[OF x] have "(2::real) powi b < 2 powi (binade x + 1)"
    by (rule le_less_trans)
  then have "b < binade x + 1" by (rule powi_less_exp)
  ultimately show ?thesis by simp
qed

lemma round_even_near:
  assumes "\<bar>q - of_int k\<bar> < 1 / 2"
  shows "round_even q = k"
proof (cases "of_int k \<le> q")
  case True
  with assms have "\<lfloor>q\<rfloor> = k" by (intro floor_unique) (simp_all add: abs_less_iff)
  with assms True show ?thesis by (simp add: round_even_def abs_less_iff)
next
  case False
  with assms have f: "\<lfloor>q\<rfloor> = k - 1" by (intro floor_unique) (simp_all add: abs_less_iff)
  have "q - of_int k < 1 / 2" "- (1 / 2) < q - of_int k"
    using assms by (simp_all only: abs_less_iff) linarith+
  then have "1 / 2 < q - of_int (k - 1)" by simp
  then show ?thesis by (simp add: round_even_def f)
qed

lemma rn_eqI:
  assumes "2 powi b \<le> \<bar>x\<bar>" "\<bar>x\<bar> < 2 powi (b + 1)"
      and "\<bar>x / 2 powi (max (b - 52) (- 1074)) - of_int k\<bar> < 1 / 2"
  shows "rn x = of_int k * 2 powi (max (b - 52) (- 1074))"
proof -
  have "ulp_exponent x = max (b - 52) (- 1074)"
    by (simp only: ulp_exponent_def binade_eqI[OF assms(1,2)])
  then show ?thesis by (simp only: rn_def round_even_near[OF assms(3)])
qed

text \<open>
  Every \<open>m * 2\<^sup>e\<close> with \<open>|m| < 2\<^sup>5\<^sup>3\<close> and \<open>e\<close> from \<open>-1074\<close> on is left as it is by the
  rounding: these are the doubles, up to the range check.
\<close>

lemma rn_representable:
  assumes m: "\<bar>m\<bar> < 2 ^ 53" and e: "- 1074 \<le> e"
  shows "rn (of_int m * 2 powi e) = of_int m * 2 powi e"
proof (cases "m = 0")
  case True
  then show ?thesis by (simp add: rn_zero)
next
  case False
  let ?x = "of_int m * (2::real) powi e"
  let ?ex = "ulp_exponent ?x"
  have x: "?x \<noteq> 0" using False by simp
  have "\<bar>of_int m :: real\<bar> < of_int (2 ^ 53)"
    using m by (simp only: of_int_abs[symmetric] of_int_less_iff)
  then have "\<bar>of_int m :: real\<bar> < 2 powi 53" by simp
  moreover have "\<bar>?x\<bar> = \<bar>of_int m :: real\<bar> * 2 powi e"
    by (simp add: abs_mult)
  moreover have "0 < (2::real) powi e" by simp
  ultimately have "\<bar>?x\<bar> < 2 powi 53 * 2 powi e"
    by (simp only: mult_strict_right_mono)
  also have "\<dots> = 2 powi (e + 53)" by (simp only: powi_add2 mult.commute)
  finally have "(2::real) powi binade ?x < 2 powi (e + 53)"
    using binade_bounds(1)[OF x] by simp
  then have "binade ?x < e + 53" by (rule powi_less_exp)
  with e have le: "0 \<le> e - ?ex" by (simp add: ulp_exponent_def)
  have "e = (e - ?ex) + ?ex" by simp
  then have "(2::real) powi e = 2 powi (e - ?ex) * 2 powi ?ex"
    by (simp only: powi_add2[symmetric])
  also have "(2::real) powi (e - ?ex) = 2 ^ nat (e - ?ex)" using le by (rule power_int_nonneg_exp)
  also have "\<dots> = of_int (2 ^ nat (e - ?ex))" by simp
  finally have split: "?x = of_int (m * 2 ^ nat (e - ?ex)) * 2 powi ?ex"
    by (simp only: of_int_mult mult.assoc)
  have "0 < (2::real) powi ?ex" by simp
  then have "?x / 2 powi ?ex = of_int (m * 2 ^ nat (e - ?ex))"
    by (subst split) simp
  then have "round_even (?x / 2 powi ?ex) = m * 2 ^ nat (e - ?ex)"
    by (simp only: round_even_of_int)
  then have "rn ?x = of_int (m * 2 ^ nat (e - ?ex)) * 2 powi ?ex" by (simp only: rn_def)
  then show ?thesis by (simp only: split[symmetric])
qed

lemma rn_half: "rn (1 / 2) = 1 / 2"
  using rn_representable[of 1 "- 1"] by simp

lemma rn_quarter: "rn (1 / 4) = 1 / 4"
  using rn_representable[of 1 "- 2"] by simp

lemma rn_three_quarters: "rn (3 / 4) = 3 / 4"
  using rn_representable[of 3 "- 2"] by simp

lemma rn_one: "rn 1 = 1"
  using rn_representable[of 1 0] by simp

lemma rn_two: "rn 2 = 2"
  using rn_representable[of 1 1] by simp

lemma max_double_ge: "8 \<le> max_double"
  by (simp add: max_double_def)

section \<open>Properties of the style mixer\<close>

subsection \<open>Auxiliary facts about rounded sums and quotients\<close>

lemma unit_roundoff_bounds: "0 < unit_roundoff" "unit_roundoff < 1"
  by (simp_all add: unit_roundoff_def)

lemma rn_bounds_grid:
  assumes "on_grid x" "0 \<le> x"
  shows "x * (1 - unit_roundoff) \<le> rn x" "rn x \<le> x * (1 + unit_roundoff)"
proof -
  from rn_rel_on_grid[OF assms(1)] assms(2) have "\<bar>rn x - x\<bar> \<le> unit_roundoff * x" by simp
  then show "x * (1 - unit_roundoff) \<le> rn x" "rn x \<le> x * (1 + unit_roundoff)"
    by (auto simp: algebra_simps abs_le_iff)
qed

lemma rn_bounds_any:
  assumes "0 \<le> x"
  shows "x * (1 - unit_roundoff) - min_subnormal / 2 \<le> rn x"
    and "rn x \<le> x * (1 + unit_roundoff) + min_subnormal / 2"
proof -
  from rn_abs_error[of x] assms
  have "\<bar>rn x - x\<bar> \<le> unit_roundoff * x + min_subnormal / 2" by simp
  then show "x * (1 - unit_roundoff) - min_subnormal / 2 \<le> rn x"
    and "rn x \<le> x * (1 + unit_roundoff) + min_subnormal / 2"
    by (auto simp: algebra_simps abs_le_iff)
qed

lemma positive_weight_cases:
  "mixer_weight v \<Longrightarrow> \<exists>w. v = Num w \<and> is_double w \<and> 0 < w \<and> w \<le> 1"
  by (cases v) (auto simp: mixer_weight_def)

lemma positive_weights_Cons:
  "positive_weights (s # styles) \<longleftrightarrow> mixer_weight (weight s) \<and> positive_weights styles"
  by (simp add: positive_weights_def)

lemma weight_sum_Cons: "weight_sum (s # styles) = val (weight s) + weight_sum styles"
  by (simp add: weight_sum_def)

lemma weight_sum_nonneg: "positive_weights styles \<Longrightarrow> 0 \<le> weight_sum styles"
  unfolding weight_sum_def positive_weights_def
  by (induction styles) (auto dest!: positive_weight_cases)

lemma weight_sum_pos: "positive_weights styles \<Longrightarrow> styles \<noteq> [] \<Longrightarrow> 0 < weight_sum styles"
  using weight_sum_nonneg[of "tl styles"]
  by (cases styles) (auto simp: weight_sum_def positive_weights_def dest!: positive_weight_cases)

lemma weight_sum_le_length: "positive_weights styles \<Longrightarrow> weight_sum styles \<le> length styles"
  unfolding weight_sum_def positive_weights_def
  by (induction styles) (auto dest!: positive_weight_cases)

lemma weight_le_sum:
  "positive_weights styles \<Longrightarrow> s \<in> set styles \<Longrightarrow> val (weight s) \<le> weight_sum styles"
proof (induction styles)
  case Nil
  then show ?case by simp
next
  case (Cons a styles)
  from Cons.prems(1) have rest: "positive_weights styles" and a: "mixer_weight (weight a)"
    by (simp_all add: positive_weights_Cons)
  from a obtain w where w: "weight a = Num w" "0 < w" by (auto dest: positive_weight_cases)
  show ?case
  proof (cases "s = a")
    case True
    with weight_sum_nonneg[OF rest] show ?thesis by (simp add: weight_sum_Cons)
  next
    case False
    with Cons.prems(2) have "s \<in> set styles" by simp
    from Cons.IH[OF rest this] w show ?thesis by (simp add: weight_sum_Cons)
  qed
qed

text \<open>
  The \<open>reduce\<close> over mixer weights, from a double \<open>a\<close>: as long as the sum stays in range
  no addition overflows, and each of the \<open>n\<close> additions loses at most a factor
  \<open>1 - u\<close> and gains at most \<open>1 + u\<close>. A sum in the subnormal range is exact.
\<close>

lemma rounded_sum_bounds:
  assumes a: "0 \<le> a" "on_grid a" and pw: "positive_weights styles"
      and big: "(a + weight_sum styles) * (1 + unit_roundoff) ^ length styles \<le> max_double"
  shows "\<exists>t. foldl (\<lambda>sum s. js_add sum (weight s)) (Num a) styles = Num t
           \<and> (a + weight_sum styles) * (1 - unit_roundoff) ^ length styles \<le> t
           \<and> t \<le> (a + weight_sum styles) * (1 + unit_roundoff) ^ length styles"
  using a pw big
proof (induction styles arbitrary: a)
  case Nil
  then show ?case by (simp add: weight_sum_def)
next
  case (Cons s styles)
  let ?u = unit_roundoff
  note u = unit_roundoff_bounds
  from Cons.prems(3) have rest: "positive_weights styles" and sw: "mixer_weight (weight s)"
    by (simp_all add: positive_weights_Cons)
  from sw obtain w where w: "weight s = Num w" "is_double w" "0 < w"
    by (auto dest: positive_weight_cases)
  have T: "0 \<le> weight_sum styles" using rest by (rule weight_sum_nonneg)
  have ws: "weight_sum (s # styles) = w + weight_sum styles" by (simp add: weight_sum_Cons w)
  let ?x = "a + w"
  let ?a' = "rn ?x"
  have x0: "0 \<le> ?x" using Cons.prems(1) w(3) by simp
  have xg: "on_grid ?x" using Cons.prems(2) is_double_on_grid[OF w(2)] by (rule on_grid_add)
  note b = rn_bounds_grid[OF xg x0]
  have "0 \<le> ?x * (1 - ?u)" using x0 u by simp
  then have a'0: "0 \<le> ?a'" using b(1) by (rule order_trans)
  have p1: "0 \<le> (1 - ?u) ^ length styles" using u by simp
  have p2: "1 \<le> (1 + ?u) ^ length styles" using u by (simp add: one_le_power)
  have lo: "(?x + weight_sum styles) * (1 - ?u) \<le> ?a' + weight_sum styles"
  proof -
    have "(?x + weight_sum styles) * (1 - ?u) = ?x * (1 - ?u) + weight_sum styles * (1 - ?u)"
      by (simp add: algebra_simps)
    also have "\<dots> \<le> ?a' + weight_sum styles * (1 - ?u)" using b(1) by simp
    also have "\<dots> \<le> ?a' + weight_sum styles" using T u by (simp add: mult_left_le)
    finally show ?thesis .
  qed
  have hi: "?a' + weight_sum styles \<le> (?x + weight_sum styles) * (1 + ?u)"
  proof -
    have "?a' + weight_sum styles \<le> ?x * (1 + ?u) + weight_sum styles" using b(2) by simp
    also have "\<dots> \<le> ?x * (1 + ?u) + weight_sum styles * (1 + ?u)" using T u
      by (simp add: algebra_simps)
    finally show ?thesis by (simp add: algebra_simps)
  qed
  have big': "(?a' + weight_sum styles) * (1 + ?u) ^ length styles \<le> max_double"
  proof -
    have "(?a' + weight_sum styles) * (1 + ?u) ^ length styles
          \<le> ((?x + weight_sum styles) * (1 + ?u)) * (1 + ?u) ^ length styles"
      using hi p2 by (intro mult_right_mono) simp_all
    also have "\<dots> = (a + weight_sum (s # styles)) * (1 + ?u) ^ length (s # styles)"
      by (simp add: ws algebra_simps)
    finally show ?thesis using Cons.prems(4) by simp
  qed
  have "?a' \<le> (?a' + weight_sum styles) * 1" using T by simp
  also have "\<dots> \<le> (?a' + weight_sum styles) * (1 + ?u) ^ length styles"
    using p2 a'0 T by (intro mult_left_mono) simp_all
  finally have "\<bar>?a'\<bar> \<le> max_double" using big' a'0 by simp
  then have step: "js_add (Num a) (weight s) = Num ?a'"
    by (simp add: w to_double_Num)
  from Cons.IH[OF a'0 rn_on_grid rest big']
  obtain t where t: "foldl (\<lambda>sum s. js_add sum (weight s)) (Num ?a') styles = Num t"
      "(?a' + weight_sum styles) * (1 - ?u) ^ length styles \<le> t"
      "t \<le> (?a' + weight_sum styles) * (1 + ?u) ^ length styles" by blast
  have "(a + weight_sum (s # styles)) * (1 - ?u) ^ length (s # styles)
        = ((?x + weight_sum styles) * (1 - ?u)) * (1 - ?u) ^ length styles"
    by (simp add: ws algebra_simps)
  also have "\<dots> \<le> (?a' + weight_sum styles) * (1 - ?u) ^ length styles"
    using lo p1 by (rule mult_right_mono)
  also have "\<dots> \<le> t" by (rule t(2))
  finally have L: "(a + weight_sum (s # styles)) * (1 - ?u) ^ length (s # styles) \<le> t" .
  have "t \<le> (?a' + weight_sum styles) * (1 + ?u) ^ length styles" by (rule t(3))
  also have "\<dots> \<le> ((?x + weight_sum styles) * (1 + ?u)) * (1 + ?u) ^ length styles"
    using hi p2 by (intro mult_right_mono) simp_all
  also have "\<dots> = (a + weight_sum (s # styles)) * (1 + ?u) ^ length (s # styles)"
    by (simp add: ws algebra_simps)
  finally have U: "t \<le> (a + weight_sum (s # styles)) * (1 + ?u) ^ length (s # styles)" .
  have "foldl (\<lambda>sum s. js_add sum (weight s)) (Num a) (s # styles) = Num t"
    by (simp add: step t(1))
  with L U show ?case by blast
qed

lemma growth_le_2: "n \<le> 4 \<Longrightarrow> (1 + unit_roundoff) ^ n \<le> 2"
proof -
  assume n: "n \<le> 4"
  have "(1 + unit_roundoff) ^ n \<le> (1 + unit_roundoff) ^ 4"
    using unit_roundoff_bounds n by (intro power_increasing) simp_all
  also have "\<dots> \<le> 2" by (simp add: unit_roundoff_def power_divide)
  finally show ?thesis .
qed

lemma total_weight_bounds:
  assumes "length styles \<le> 4" "positive_weights styles"
  shows "\<exists>t. total_weight styles = Num t
           \<and> weight_sum styles * (1 - unit_roundoff) ^ length styles \<le> t
           \<and> t \<le> weight_sum styles * (1 + unit_roundoff) ^ length styles"
proof -
  have "weight_sum styles \<le> 4"
    using weight_sum_le_length[OF assms(2)] assms(1) by simp
  moreover have "0 \<le> weight_sum styles" using assms(2) by (rule weight_sum_nonneg)
  ultimately have "weight_sum styles * (1 + unit_roundoff) ^ length styles \<le> 4 * 2"
    using growth_le_2[OF assms(1)] unit_roundoff_bounds by (intro mult_mono) simp_all
  then have "(0 + weight_sum styles) * (1 + unit_roundoff) ^ length styles \<le> max_double"
    using max_double_ge by simp
  from rounded_sum_bounds[OF order_refl on_grid_zero assms(2) this]
  show ?thesis by (simp add: total_weight_def)
qed

lemma small_units: "unit_roundoff \<le> 1 / 1000000000000000" "0 < min_subnormal" "min_subnormal \<le> 1 / 1000000000000000"
  by (simp_all add: unit_roundoff_def min_subnormal_def)

lemma roundoff_upper: "1 / (1 - unit_roundoff) ^ 4 \<le> 1 + 1 / 10000000"
  by (simp add: unit_roundoff_def field_simps)

lemma roundoff_lower: "1 - 1 / 10000000 \<le> 1 / (1 + unit_roundoff) ^ 4"
  by (simp add: unit_roundoff_def field_simps)

text \<open>The exact sum over the rounded total is within \<open>10\<^sup>-\<^sup>7\<close> of 1.\<close>

lemma ratio_close:
  assumes T: "0 < T" and n: "n \<le> 4"
      and t: "T * (1 - unit_roundoff) ^ n \<le> t" "t \<le> T * (1 + unit_roundoff) ^ n"
  shows "0 < t" and "1 - 1 / 10000000 \<le> T / t" and "T / t \<le> 1 + 1 / 10000000"
proof -
  let ?u = unit_roundoff
  note u = unit_roundoff_bounds
  have pl: "0 < (1 - ?u) ^ n" and ph: "0 < (1 + ?u) ^ n" using u by simp_all
  have "0 < T * (1 - ?u) ^ n" using T pl by simp
  then show t0: "0 < t" using t(1) by (rule less_le_trans)
  have a: "(1 + ?u) ^ n \<le> (1 + ?u) ^ 4" using u n by (intro power_increasing) simp_all
  have b: "(1 - ?u) ^ 4 \<le> (1 - ?u) ^ n" using u n by (intro power_decreasing) simp_all
  have p4: "0 < (1 - ?u) ^ 4" using u by simp
  have "1 - 1 / 10000000 \<le> 1 / (1 + ?u) ^ 4" by (rule roundoff_lower)
  also have "\<dots> \<le> 1 / (1 + ?u) ^ n" using a ph by (intro frac_le) simp_all
  also have "\<dots> \<le> T / t" using t(2) T t0 ph by (simp add: field_simps)
  finally show "1 - 1 / 10000000 \<le> T / t" .
  have "T / t \<le> 1 / (1 - ?u) ^ n" using t(1) T t0 pl by (simp add: field_simps)
  also have "\<dots> \<le> 1 / (1 - ?u) ^ 4" using b p4 by (intro frac_le) simp_all
  also have "\<dots> \<le> 1 + 1 / 10000000" by (rule roundoff_upper)
  finally show "T / t \<le> 1 + 1 / 10000000" .
qed

text \<open>
  One division of a mixer weight by the total: it does not overflow, and the quotient is
  within \<open>10\<^sup>-\<^sup>6\<close> of the weight over the exact sum. A quotient in the subnormal range
  is rounded with an absolute error of at most half the smallest double.
\<close>

lemma normalized_entry:
  assumes pw: "positive_weights styles" and s: "s \<in> set styles"
      and t: "0 < t" "1 - 1 / 10000000 \<le> weight_sum styles / t"
             "weight_sum styles / t \<le> 1 + 1 / 10000000"
  shows "js_div (weight s) (Num t) = Num (rn (val (weight s) / t))"
    and "\<bar>rn (val (weight s) / t) - val (weight s) / weight_sum styles\<bar> \<le> 1 / 10 ^ 6"
proof -
  let ?T = "weight_sum styles" and ?u = unit_roundoff and ?h = "min_subnormal / 2"
  from pw s have "mixer_weight (weight s)" by (simp add: positive_weights_def list_all_iff)
  then obtain w where w: "weight s = Num w" "0 < w" by (auto dest: positive_weight_cases)
  have wT: "w \<le> ?T" using weight_le_sum[OF pw s] by (simp add: w)
  then have T: "0 < ?T" using w(2) by simp
  let ?r = "w / ?T" and ?q = "w / t"
  have r: "0 < ?r" "?r \<le> 1" using w(2) wT T by simp_all
  have q: "?q = ?r * (?T / t)" using T t(1) by simp
  have q0: "0 \<le> ?q" using w(2) t(1) by simp
  have Tt: "0 \<le> ?T / t" using T t(1) by simp
  have "?q \<le> 1 * (1 + 1 / 10000000)"
    unfolding q using r t(3) Tt by (intro mult_mono) simp_all
  then have q2: "?q \<le> 2" by (rule order_trans) simp
  have d: "\<bar>?q - ?r\<bar> \<le> 1 / 10000000"
  proof -
    have "?q - ?r = ?r * (?T / t - 1)" by (simp add: q algebra_simps)
    then have "\<bar>?q - ?r\<bar> = \<bar>?r\<bar> * \<bar>?T / t - 1\<bar>" by (simp only: abs_mult)
    also have "\<bar>?r\<bar> = ?r" using r(1) by (simp only: abs_of_pos)
    finally have "\<bar>?q - ?r\<bar> = ?r * \<bar>?T / t - 1\<bar>" .
    also have "\<dots> \<le> 1 * \<bar>?T / t - 1\<bar>" using r(2) by (intro mult_right_mono) simp_all
    also have "\<dots> \<le> 1 / 10000000" using t(2,3) by (simp only: abs_le_iff mult_1) linarith
    finally show ?thesis .
  qed
  have e: "\<bar>rn ?q - ?q\<bar> \<le> ?u * 2 + ?h"
  proof -
    have "\<bar>rn ?q - ?q\<bar> \<le> ?u * \<bar>?q\<bar> + ?h" by (rule rn_abs_error)
    also have "?u * \<bar>?q\<bar> \<le> ?u * 2"
      using q0 q2 unit_roundoff_bounds by (intro mult_left_mono) simp_all
    finally show ?thesis by simp
  qed
  have "\<bar>rn ?q\<bar> \<le> \<bar>rn ?q - ?q\<bar> + \<bar>?q\<bar>" by linarith
  also have "\<dots> \<le> (?u * 2 + ?h) + 2" using e q0 q2 by linarith
  also have "\<dots> \<le> max_double" using small_units max_double_ge by linarith
  finally have "to_double ?q = Num (rn ?q)" by (rule to_double_Num)
  then show "js_div (weight s) (Num t) = Num (rn (val (weight s) / t))"
    using t(1) by (simp add: w)
  have "\<bar>rn ?q - ?r\<bar> \<le> \<bar>rn ?q - ?q\<bar> + \<bar>?q - ?r\<bar>" by linarith
  also have "\<dots> \<le> (?u * 2 + ?h) + 1 / 10000000" using e d by linarith
  also have "\<dots> \<le> 1 / 1000000" using small_units by linarith
  finally show "\<bar>rn (val (weight s) / t) - val (weight s) / weight_sum styles\<bar> \<le> 1 / 10 ^ 6"
    by (simp add: w)
qed

lemma normalize_keeps_fields:
  "map style_id (normalizeWeights styles) = map style_id styles"
  "map name (normalizeWeights styles) = map name styles"
  by (simp_all add: normalizeWeights_def Let_def comp_def)

lemma quotient_sum_bounds:
  assumes t: "0 < t" and pw: "positive_weights styles"
  shows "weight_sum styles / t * (1 - unit_roundoff) - of_nat (length styles) * (min_subnormal / 2)
           \<le> sum_list (map (\<lambda>s. rn (val (weight s) / t)) styles)
       \<and> sum_list (map (\<lambda>s. rn (val (weight s) / t)) styles)
           \<le> weight_sum styles / t * (1 + unit_roundoff)
               + of_nat (length styles) * (min_subnormal / 2)"
  using pw
proof (induction styles)
  case Nil
  then show ?case by (simp add: weight_sum_def)
next
  case (Cons s styles)
  from Cons.prems have rest: "positive_weights styles" and sw: "mixer_weight (weight s)"
    by (simp_all add: positive_weights_Cons)
  from sw obtain w where w: "weight s = Num w" "0 < w" by (auto dest: positive_weight_cases)
  have q: "0 \<le> w / t" using w t by simp
  note b = rn_bounds_any[OF q]
  let ?A = "sum_list (map (\<lambda>s. rn (val (weight s) / t)) styles)"
  let ?R = "weight_sum styles / t" and ?h = "min_subnormal / 2"
  note IH = Cons.IH[OF rest]
  have ws: "weight_sum (s # styles) / t = w / t + ?R"
    by (simp add: weight_sum_Cons w add_divide_distrib)
  have n: "of_nat (length (s # styles)) * ?h = of_nat (length styles) * ?h + ?h"
    by (simp add: algebra_simps)
  have A: "sum_list (map (\<lambda>s. rn (val (weight s) / t)) (s # styles)) = rn (w / t) + ?A"
    by (simp add: w)
  have l: "(w / t + ?R) * (1 - unit_roundoff)
           = w / t * (1 - unit_roundoff) + ?R * (1 - unit_roundoff)"
    by (rule distrib_right)
  have r: "(w / t + ?R) * (1 + unit_roundoff)
           = w / t * (1 + unit_roundoff) + ?R * (1 + unit_roundoff)"
    by (rule distrib_right)
  show ?case unfolding ws n A l r using IH b by linarith
qed

subsection \<open>Normalization on positive weights\<close>

text \<open>
  Claim C4. For a mixer of 1 to 4 entries whose weights are positive mixer weights
  (doubles greater than 0 and at most 1), \<open>handleMix\<close> leaves the \<open>styles\<close> slot as it is
  and hands to \<open>onMixStyles\<close> the same entries (ids and names in order) with, for each
  entry, the weight \<open>weight\<^sub>i / total\<close> rounded to a double, where \<open>total\<close> is the
  left-to-right sum of all weights as JavaScript computes it. No operation overflows;
  \<open>total\<close> lies within the factors \<open>(1 - u) ^ n\<close> and \<open>(1 + u) ^ n\<close> of the exact sum;
  every emitted weight is a finite number within \<open>10\<^sup>-\<^sup>6\<close> of \<open>weight\<^sub>i / sum\<close>; and the
  emitted weights add up to a value within \<open>10\<^sup>-\<^sup>6\<close> of 1.
\<close>

theorem mix_emits_normalized_weights:
  assumes "1 \<le> length styles" "length styles \<le> 4" "positive_weights styles"
  shows "fst (handleMix styles) = styles \<and>
         map style_id (snd (handleMix styles)) = map style_id styles \<and>
         map name (snd (handleMix styles)) = map name styles \<and>
         (\<exists>t. total_weight styles = Num t \<and>
              weight_sum styles * (1 - unit_roundoff) ^ length styles \<le> t \<and>
              t \<le> weight_sum styles * (1 + unit_roundoff) ^ length styles \<and>
              map weight (snd (handleMix styles))
                = map (\<lambda>s. Num (rn (val (weight s) / t))) styles) \<and>
         list_all2 (\<lambda>s e. is_finite (weight e) \<and>
                      \<bar>val (weight e) - val (weight s) / weight_sum styles\<bar> \<le> 1 / 10 ^ 6)
           styles (snd (handleMix styles)) \<and>
         \<bar>weight_sum (snd (handleMix styles)) - 1\<bar> \<le> 1 / 10 ^ 6"
proof -
  let ?T = "weight_sum styles" and ?u = unit_roundoff and ?h = "min_subnormal / 2"
  let ?n = "length styles"
  have ne: "styles \<noteq> []" using assms(1) by auto
  have T: "0 < ?T" using weight_sum_pos[OF assms(3) ne] .
  from total_weight_bounds[OF assms(2,3)]
  obtain t where t: "total_weight styles = Num t"
      "?T * (1 - ?u) ^ ?n \<le> t" "t \<le> ?T * (1 + ?u) ^ ?n" by blast
  note r = ratio_close[OF T assms(2) t(2,3)]
  note ent = normalized_entry[OF assms(3) _ r]
  have nw: "map weight (normalizeWeights styles) = map (\<lambda>s. Num (rn (val (weight s) / t))) styles"
    using ent(1) by (simp add: normalizeWeights_def t(1))
  have close: "list_all2 (\<lambda>s e. is_finite (weight e) \<and>
                  \<bar>val (weight e) - val (weight s) / ?T\<bar> \<le> 1 / 10 ^ 6)
                styles (normalizeWeights styles)"
    using ent by (simp add: normalizeWeights_def t(1) list_all2_map2 list_all2_same is_finite_def)
  have S: "weight_sum (normalizeWeights styles)
           = sum_list (map (\<lambda>s. rn (val (weight s) / t)) styles)"
  proof -
    have "map (\<lambda>s. val (weight s)) (normalizeWeights styles)
          = map val (map weight (normalizeWeights styles))" by simp
    also have "\<dots> = map (\<lambda>s. rn (val (weight s) / t)) styles"
      by (simp add: nw comp_def)
    finally show ?thesis by (simp add: weight_sum_def)
  qed
  from quotient_sum_bounds[OF r(1) assms(3)]
  have qb: "?T / t * (1 - ?u) - of_nat ?n * ?h \<le> weight_sum (normalizeWeights styles)"
           "weight_sum (normalizeWeights styles) \<le> ?T / t * (1 + ?u) + of_nat ?n * ?h"
    by (simp_all add: S)
  have nh: "of_nat ?n * ?h \<le> 4 * ?h"
    using assms(2) small_units(2) by (intro mult_right_mono) simp_all
  have u: "0 < ?u" "?u \<le> 1 / 1000000000000000" using unit_roundoff_bounds small_units by simp_all
  have Tt: "0 \<le> ?T / t" using T r(1) by simp
  have h4: "4 * ?h \<le> 4 * (1 / 1000000000000000 / 2)"
    using small_units(3) by (intro mult_left_mono divide_right_mono) simp_all
  have "(1 - 1 / 10000000) * (1 - 1 / 1000000000000000) \<le> ?T / t * (1 - ?u)"
    using r(2) u Tt by (intro mult_mono) simp_all
  moreover have "(1::real) - 1 / 1000000
                 \<le> (1 - 1 / 10000000) * (1 - 1 / 1000000000000000)
                     - 4 * (1 / 1000000000000000 / 2)"
    by simp
  ultimately have lo: "1 - 1 / 1000000 \<le> weight_sum (normalizeWeights styles)"
    using qb(1) nh h4 by linarith
  have "?T / t * (1 + ?u) \<le> (1 + 1 / 10000000) * (1 + 1 / 1000000000000000)"
    using r(3) u Tt by (intro mult_mono) simp_all
  moreover have "(1 + 1 / 10000000) * (1 + 1 / 1000000000000000)
                   + 4 * (1 / 1000000000000000 / 2)
                 \<le> (1::real) + 1 / 1000000"
    by simp
  ultimately have hi: "weight_sum (normalizeWeights styles) \<le> 1 + 1 / 1000000"
    using qb(2) nh h4 by linarith
  from lo hi have "\<bar>weight_sum (normalizeWeights styles) - 1\<bar> \<le> 1 / 1000000"
    by linarith
  then have "\<bar>weight_sum (normalizeWeights styles) - 1\<bar> \<le> 1 / 10 ^ 6" by simp
  then show ?thesis using t nw close
    by (simp add: handleMix_def Let_def normalize_keeps_fields)
qed

text \<open>
  The theorem at a mixer of two entries with weights 0.5 and 0.25. The total is 0.75 and
  the emitted weights are the doubles nearest to 2/3 and 1/3.
\<close>

theorem mix_emits_normalized_weights_witness:
  "1 \<le> length two_styles \<and> length two_styles \<le> 4 \<and> positive_weights two_styles
   \<and> fst (handleMix two_styles) = two_styles
   \<and> total_weight two_styles = Num (3 / 4)
   \<and> map weight (snd (handleMix two_styles))
       = [Num (6004799503160661 / 2 ^ 53), Num (6004799503160661 / 2 ^ 54)]
   \<and> \<bar>weight_sum (snd (handleMix two_styles)) - 1\<bar> \<le> 1 / 10 ^ 6"
proof -
  have d: "is_double (1 / 2)" "is_double (1 / 4)"
    using max_double_ge by (simp_all add: is_double_def rn_half rn_quarter)
  have h: "1 \<le> length two_styles" "length two_styles \<le> 4" "positive_weights two_styles"
    using d by (simp_all add: two_styles_def positive_weights_def mixer_weight_def)
  have t: "total_weight two_styles = Num (3 / 4)"
    using max_double_ge
    by (simp add: total_weight_def two_styles_def to_double_def rn_half rn_three_quarters)
  from mix_emits_normalized_weights[OF h]
  obtain t' where t': "total_weight two_styles = Num t'"
      "map weight (snd (handleMix two_styles))
         = map (\<lambda>s. Num (rn (val (weight s) / t'))) two_styles"
    and s: "\<bar>weight_sum (snd (handleMix two_styles)) - 1\<bar> \<le> 1 / 10 ^ 6"
    and f: "fst (handleMix two_styles) = two_styles"
    by blast
  from t'(1) t have "t' = 3 / 4" by simp
  with t'(2) have w: "map weight (snd (handleMix two_styles))
             = map (\<lambda>s. Num (rn (val (weight s) / (3 / 4)))) two_styles"
    by (simp only:)
  have "rn (2 / 3) = 6004799503160661 * 2 powi (max (- 1 - 52) (- 1074))"
    using rn_eqI[of "- 1" "2 / 3" 6004799503160661] by simp
  moreover have "rn (1 / 3) = 6004799503160661 * 2 powi (max (- 2 - 52) (- 1074))"
    using rn_eqI[of "- 2" "1 / 3" 6004799503160661] by simp
  ultimately have "map weight (snd (handleMix two_styles))
       = [Num (6004799503160661 / 2 ^ 53), Num (6004799503160661 / 2 ^ 54)]"
    using w by (simp add: two_styles_def)
  then show ?thesis using h t s f by simp
qed

subsection \<open>Weights outside the range of a mixer weight, and underflow\<close>

text \<open>
  The bound on the weights matters. With two weights of \<open>2\<^sup>1\<^sup>0\<^sup>2\<^sup>3\<close>, far outside the range
  of a mixer weight, the total overflows to \<open>Infinity\<close> and both emitted weights are 0.
\<close>

lemma mix_overflow_example:
  "total_weight huge_styles = PosInfinity
   \<and> map weight (snd (handleMix huge_styles)) = [Num 0, Num 0]"
proof -
  have a: "rn (2 ^ 1023) = 2 ^ 1023" using rn_representable[of 1 1023] by simp
  have b: "rn (2 ^ 1024) = 2 ^ 1024" using rn_representable[of 1 1024] by simp
  have s: "(2::real) ^ 1023 + 2 ^ 1023 = 2 ^ 1024" by simp
  have "to_double (0 + 2 ^ 1023) = Num (2 ^ 1023)"
    by (simp only: add_0 to_double_def a Let_def) (simp add: max_double_def)
  moreover have "to_double (2 ^ 1023 + 2 ^ 1023) = PosInfinity"
    by (simp only: s to_double_def b Let_def) (simp add: max_double_def)
  ultimately have t: "total_weight huge_styles = PosInfinity"
    by (simp add: total_weight_def huge_styles_def del: power_numeral)
  then show ?thesis
    by (simp add: handleMix_def normalizeWeights_def huge_styles_def del: power_numeral)
qed

text \<open>
  Within the range, a weight at the smallest positive double is absorbed by the total and
  its quotient underflows to 0; the emitted weights still add up to 1.
\<close>

lemma mix_underflow_example:
  "total_weight tiny_styles = Num 2
   \<and> map weight (snd (handleMix tiny_styles)) = [Num 0, Num (1 / 2), Num (1 / 2)]"
proof -
  let ?m = "(1::real) / 2 ^ 1074"
  have m: "rn ?m = ?m" using rn_representable[of 1 "- 1074"] by (simp add: power_int_minus_divide)
  have "rn (?m + 1) = of_int (2 ^ 52) * 2 powi (max (0 - 52) (- 1074))"
    by (rule rn_eqI) simp_all
  then have one: "rn (?m + 1) = 1" by simp
  have "binade (?m / 2) = - 1075"
    by (rule binade_eqI) (simp_all add: power_int_minus_divide)
  then have z: "rn (?m / 2) = 0"
    by (simp add: rn_def ulp_exponent_def round_even_def power_int_minus_divide)
  have "to_double (0 + ?m) = Num ?m" using max_double_ge
    by (simp only: add_0 to_double_def m Let_def) simp
  moreover have "to_double (?m + 1) = Num 1" using max_double_ge
    by (simp only: to_double_def one Let_def) simp
  moreover have "to_double (1 + 1) = Num 2" using max_double_ge
    by (simp add: to_double_def rn_two)
  ultimately have t: "total_weight tiny_styles = Num 2"
    by (simp add: total_weight_def tiny_styles_def del: power_numeral)
  have "to_double (?m / 2) = Num 0" using max_double_ge
    by (simp only: to_double_def z Let_def) simp
  moreover have "to_double (1 / 2) = Num (1 / 2)" using max_double_ge
    by (simp add: to_double_def rn_half)
  ultimately show ?thesis using t
    by (simp add: handleMix_def normalizeWeights_def tiny_styles_def del: power_numeral)
qed

subsection \<open>The all-zero mixer\<close>

lemma to_double_zero: "to_double 0 = Num 0"
  using max_double_ge by (simp add: to_double_def rn_zero)

text \<open>
  Claim C5. The claim asks for a guard against a zero sum. \<open>normalizeWeights\<close> has none:
  on the mixer with both weights at 0 the total is 0, every division is \<open>0 / 0\<close>, and
  \<open>handleMix\<close> hands two NaN weights to \<open>onMixStyles\<close>.
\<close>

theorem mix_all_zero_emits_nan:
  "total_weight zero_styles = Num 0
   \<and> map weight (snd (handleMix zero_styles)) = [NaN, NaN]
   \<and> \<not> list_all (\<lambda>s. is_finite (weight s)) (snd (handleMix zero_styles))"
  by (simp add: handleMix_def normalizeWeights_def total_weight_def zero_styles_def
        is_finite_def to_double_zero)

text \<open>The same for any mixer whose weights are all 0.\<close>

lemma total_weight_all_zero:
  assumes "list_all (\<lambda>s. weight s = Num 0) styles"
  shows "total_weight styles = Num 0"
proof -
  have "foldl (\<lambda>sum s. js_add sum (weight s)) (Num 0) styles = Num 0"
    using assms by (induction styles) (simp_all add: to_double_zero)
  then show ?thesis by (simp add: total_weight_def)
qed

lemma normalize_all_zero:
  assumes "list_all (\<lambda>s. weight s = Num 0) styles"
  shows "list_all (\<lambda>s. weight s = NaN) (normalizeWeights styles)"
  using assms total_weight_all_zero[OF assms]
  by (simp add: normalizeWeights_def list_all_iff)

subsection \<open>The number of entries\<close>

lemma length_addStyle:
  "length (addStyle now styles) = (if length styles < 4 then length styles + 1 else length styles)"
  by (simp add: addStyle_def)

lemma length_removeStyle_le: "length (removeStyle i styles) \<le> length styles"
  by (simp add: removeStyle_def)

text \<open>With distinct ids at most one entry carries the id to remove.\<close>

lemma distinct_filter_id:
  "distinct (map style_id styles)
   \<Longrightarrow> length styles \<le> length (filter (\<lambda>s. style_id s \<noteq> i) styles) + 1"
proof (induction styles)
  case Nil
  then show ?case by simp
next
  case (Cons s styles)
  show ?case
  proof (cases "style_id s = i")
    case True
    with Cons.prems have "i \<notin> style_id ` set styles" by auto
    then have "filter (\<lambda>s. style_id s \<noteq> i) styles = styles"
      by (auto simp: filter_id_conv)
    with True show ?thesis by simp
  next
    case False
    with Cons show ?thesis by simp
  qed
qed

lemma length_removeStyle_ge:
  assumes "1 \<le> length styles" "distinct (map style_id styles)"
  shows "1 \<le> length (removeStyle i styles)"
proof (cases "length styles > 1")
  case True
  with distinct_filter_id[OF assms(2), of i] show ?thesis by (simp add: removeStyle_def)
next
  case False
  with assms(1) show ?thesis by (simp add: removeStyle_def)
qed

lemma distinct_removeStyle:
  "distinct (map style_id styles) \<Longrightarrow> distinct (map style_id (removeStyle i styles))"
  by (simp add: removeStyle_def distinct_map_filter)

lemma ids_updateWeight: "map style_id (updateWeight i w styles) = map style_id styles"
  by (induction styles) (simp_all add: updateWeight_def)

text \<open>
  What holds of the two guards. On a mixer of exactly 4 entries \<open>addStyle\<close> returns the
  list as it is, and on a mixer of exactly 1 entry \<open>removeStyle\<close> returns the list as it
  is, for every id; neither has an error outcome. From a mixer of 1 to 4 entries
  \<open>addStyle\<close> gives 1 to 4 entries and \<open>removeStyle\<close> gives at most 4; it gives at least
  1 when the ids are distinct.
\<close>

lemma mixer_count_with_distinct_ids:
  assumes "length full = 4" "length single = 1" "1 \<le> length styles" "length styles \<le> 4"
  shows "addStyle now full = full \<and> length (addStyle now full) = 4
       \<and> removeStyle i single = single \<and> length (removeStyle i single) = 1
       \<and> 1 \<le> length (addStyle now styles) \<and> length (addStyle now styles) \<le> 4
       \<and> length (removeStyle i styles) \<le> 4
       \<and> (distinct (map style_id styles) \<longrightarrow> 1 \<le> length (removeStyle i styles))"
proof -
  have "addStyle now full = full" using assms(1) by (simp add: addStyle_def)
  moreover have "removeStyle i single = single" using assms(2) by (simp add: removeStyle_def)
  moreover have "1 \<le> length (addStyle now styles)" "length (addStyle now styles) \<le> 4"
    using assms(3,4) by (simp_all add: length_addStyle)
  moreover have "length (removeStyle i styles) \<le> 4"
    using length_removeStyle_le[of i styles] assms(4) by simp
  moreover have "distinct (map style_id styles) \<longrightarrow> 1 \<le> length (removeStyle i styles)"
    using length_removeStyle_ge[OF assms(3)] by blast
  ultimately show ?thesis using assms(1,2) by simp
qed

text \<open>
  Along any sequence of actions from a mixer of 1 to 4 entries with distinct ids, as long
  as every clock reading is new, the mixer keeps 1 to 4 entries with distinct ids.
\<close>

lemma mixer_step_invariant:
  assumes "1 \<le> length styles" "length styles \<le> 4" "distinct (map style_id styles)"
      and "fresh_clock styles [a]"
  shows "1 \<le> length (mixer_step styles a) \<and> length (mixer_step styles a) \<le> 4
       \<and> distinct (map style_id (mixer_step styles a))"
proof (cases a)
  case (AddStyle now)
  with assms show ?thesis by (auto simp: addStyle_def)
next
  case (RemoveStyle i)
  with assms length_removeStyle_ge[of styles i] length_removeStyle_le[of i styles]
  show ?thesis by (simp add: distinct_removeStyle)
next
  case (UpdateWeight i w)
  with assms show ?thesis by (simp add: ids_updateWeight) (simp add: updateWeight_def)
next
  case Mix
  with assms show ?thesis by (simp add: handleMix_def Let_def)
qed

lemma mixer_run_invariant:
  assumes "1 \<le> length styles" "length styles \<le> 4" "distinct (map style_id styles)"
      and "fresh_clock styles actions"
  shows "1 \<le> length (mixer_run styles actions) \<and> length (mixer_run styles actions) \<le> 4
       \<and> distinct (map style_id (mixer_run styles actions))"
  using assms
proof (induction actions arbitrary: styles)
  case Nil
  then show ?case by (simp add: mixer_run_def)
next
  case (Cons a actions)
  from Cons.prems have "fresh_clock styles [a]" by simp
  from mixer_step_invariant[OF Cons.prems(1,2,3) this] Cons.prems(4)
  have "1 \<le> length (mixer_run (mixer_step styles a) actions)
        \<and> length (mixer_run (mixer_step styles a) actions) \<le> 4
        \<and> distinct (map style_id (mixer_run (mixer_step styles a) actions))"
    by (intro Cons.IH) simp_all
  then show ?case by (simp add: mixer_run_def)
qed

text \<open>The count never exceeds 4, whatever the ids.\<close>

lemma mixer_run_at_most_4:
  "length styles \<le> 4 \<Longrightarrow> length (mixer_run styles actions) \<le> 4"
  unfolding mixer_run_def
proof (induction actions arbitrary: styles)
  case Nil
  then show ?case by simp
next
  case (Cons a actions)
  have "length (mixer_step styles a) \<le> 4"
  proof (cases a)
    case (AddStyle now)
    with Cons.prems show ?thesis by (simp add: length_addStyle)
  next
    case (RemoveStyle i)
    with Cons.prems length_removeStyle_le[of i styles] show ?thesis by simp
  next
    case (UpdateWeight i w)
    with Cons.prems show ?thesis by (simp add: updateWeight_def)
  next
    case Mix
    with Cons.prems show ?thesis by (simp add: handleMix_def Let_def)
  qed
  then show ?case using Cons.IH by simp
qed

text \<open>
  Claim C6. The two guards are in the code and the count never exceeds 4, but the count
  does not always stay at 1 or more. An id is the reading of \<open>Date.now()\<close>, and
  \<open>removeStyle\<close> drops every entry that carries the id. From the initial mixer, two
  entries added within the same millisecond share their id; once the first entry is
  removed the mixer holds these two, its guard \<open>styles.length > 1\<close> passes, and removing
  one of them removes both: the mixer is empty.
\<close>

theorem mixer_count_reaches_zero:
  "length initial_styles = 1
   \<and> map style_id (mixer_run initial_styles [AddStyle 1700000000000, AddStyle 1700000000000])
       = [1, 1700000000000, 1700000000000]
   \<and> map style_id
        (mixer_run initial_styles
           [AddStyle 1700000000000, AddStyle 1700000000000, RemoveStyle 1])
       = [1700000000000, 1700000000000]
   \<and> mixer_run initial_styles same_millisecond = []
   \<and> length (mixer_run initial_styles same_millisecond) = 0"
  by (simp add: mixer_run_def same_millisecond_def initial_styles_def addStyle_def
        removeStyle_def)
section \<open>Properties of the transfer workflow\<close>

subsection \<open>Submitting without both images\<close>

text \<open>
  Claim C1. In every state where the content image or the style image is absent,
  \<open>handleStyleTransfer\<close>, in quick and in standard mode and whatever the backend would
  answer, sets the error to the missing-images message, sends no request, and leaves every
  other slot of the state as it was.
\<close>

theorem submit_without_both_images:
  assumes "contentImage s = None \<or> styleImage s = None"
  shows "handleStyleTransfer quickMode env resp s
           = (s\<lparr>error := Some ''Please upload both content and style images''\<rparr>, None)
       \<and> handleStyleTransfer_begin quickMode s
           = (s\<lparr>error := Some ''Please upload both content and style images''\<rparr>, None)
       \<and> contentImage (fst (handleStyleTransfer quickMode env resp s)) = contentImage s
       \<and> styleImage (fst (handleStyleTransfer quickMode env resp s)) = styleImage s
       \<and> resultImage (fst (handleStyleTransfer quickMode env resp s)) = resultImage s
       \<and> isProcessing (fst (handleStyleTransfer quickMode env resp s)) = isProcessing s"
proof -
  have "handleStyleTransfer_begin quickMode s
          = (s\<lparr>error := Some ''Please upload both content and style images''\<rparr>, None)"
    using assms by (auto simp: handleStyleTransfer_begin_def split: option.splits)
  then show ?thesis by (simp add: handleStyleTransfer_def)
qed

theorem submit_without_both_images_witness:
  "(contentImage initial_state = None \<or> styleImage initial_state = None)
   \<and> handleStyleTransfer True None (Rejected ''Network Error'') initial_state
       = (initial_state\<lparr>error := Some ''Please upload both content and style images''\<rparr>, None)"
proof -
  have h: "contentImage initial_state = None \<or> styleImage initial_state = None"
    by (simp add: initial_state_def)
  from submit_without_both_images[OF h, of True None "Rejected ''Network Error''"]
  show ?thesis using h by simp
qed

subsection \<open>Submitting while a transfer is under way\<close>

lemma begin_with_both_images:
  assumes "contentImage s = Some c" "styleImage s = Some st"
  shows "handleStyleTransfer_begin quickMode s =
           (s\<lparr>isProcessing := True, error := None, processingProgress := 0\<rparr>,
            Some (if quickMode
                  then quickTransfer (TransferData (path c) (path st) (styleIntensity s) None)
                  else styleTransfer
                         (TransferData (path c) (path st) (styleIntensity s) (Some (quality s)))))"
  using assms by (simp add: handleStyleTransfer_begin_def)

lemma upload_keeps_flag:
  "isProcessing (fst (handleContentUpload_begin f s)) = isProcessing s"
  "isProcessing (fst (handleStyleUpload_begin f s)) = isProcessing s"
  "isProcessing (fst (handleContentUpload_settle resp fresh (s, live))) = isProcessing s"
  "isProcessing (fst (handleStyleUpload_settle resp fresh (s, live))) = isProcessing s"
  by (simp_all add: handleContentUpload_begin_def handleStyleUpload_begin_def
        handleContentUpload_settle_def handleStyleUpload_settle_def createObjectURL_def
        split: response.splits)

lemma single_flight_step:
  assumes "single_flight w"
  shows "single_flight (ui_step w e)"
proof (cases e)
  case (DropContent f)
  with assms upload_keeps_flag(1)[of f "app w"] show ?thesis
    by (simp add: single_flight_def)
next
  case (ContentUploadSettles resp fresh)
  with assms upload_keeps_flag(3)[of resp fresh "app w" "liveURLs w"] show ?thesis
    by (auto simp: single_flight_def split: prod.splits)
next
  case (DropStyle f)
  with assms upload_keeps_flag(2)[of f "app w"] show ?thesis
    by (simp add: single_flight_def)
next
  case (StyleUploadSettles resp fresh)
  with assms upload_keeps_flag(4)[of resp fresh "app w" "liveURLs w"] show ?thesis
    by (auto simp: single_flight_def split: prod.splits)
next
  case (MoveIntensity v)
  with assms show ?thesis by (simp add: single_flight_def setStyleIntensity_def)
next
  case (ClickTransfer quickMode)
  show ?thesis
  proof (cases "transferDisabled (app w)")
    case True
    with assms ClickTransfer show ?thesis by (simp add: clickTransfer_def)
  next
    case False
    then obtain c st where i: "contentImage (app w) = Some c" "styleImage (app w) = Some st"
      and np: "\<not> isProcessing (app w)"
      by (auto simp: transferDisabled_def)
    from np assms have "pending w = []" by (simp add: single_flight_def)
    with False ClickTransfer begin_with_both_images[OF i, of quickMode]
    show ?thesis by (simp add: clickTransfer_def single_flight_def)
  qed
next
  case (TransferSettles env resp)
  show ?thesis
  proof (cases "pending w")
    case Nil
    with assms TransferSettles show ?thesis by simp
  next
    case (Cons r rs)
    with assms have "rs = []" by (simp add: single_flight_def)
    with Cons TransferSettles show ?thesis
      by (simp add: single_flight_def handleStyleTransfer_resume_def Let_def)
  qed
next
  case ClickReset
  with assms show ?thesis by (simp add: single_flight_def handleReset_def)
qed

lemma single_flight_run: "single_flight w \<Longrightarrow> single_flight (ui_run w events)"
  unfolding ui_run_def
  by (induction events arbitrary: w) (simp_all add: single_flight_step)

lemma single_flight_initial: "single_flight initial_world"
  by (simp add: single_flight_def initial_world_def initial_state_def)

text \<open>
  Claim C2, as stated, fails: \<open>handleStyleTransfer\<close> does not read \<open>isProcessing\<close>. Called
  with both images present while a transfer is under way, it sends a second request and
  sets no error.
\<close>

theorem second_submit_is_sent:
  "isProcessing processing_state
   \<and> snd (handleStyleTransfer_begin False processing_state)
       = Some (styleTransfer (TransferData ''uploads/cat.png'' ''uploads/vangogh.png'' (Num 1)
                                (Some ''standard'')))
   \<and> error (fst (handleStyleTransfer_begin False processing_state)) = None"
  by (simp add: handleStyleTransfer_begin_def processing_state_def ready_state_def
        initial_state_def cat_ref_def vangogh_ref_def)

text \<open>
  Claim C2, amended. The handler has no check of its own: in every state with both images
  and \<open>isProcessing\<close> set it sends the request of its mode and clears the error. The rule
  of one transfer at a time is kept by the buttons: while \<open>isProcessing\<close> is set both
  transfer buttons are disabled, a click on them changes nothing and sends nothing, and
  along every sequence of events of the page from its initial state at most one transfer
  request is pending.
\<close>

theorem single_flight_kept_by_disabled_buttons:
  assumes "contentImage s = Some c" "styleImage s = Some st" "isProcessing s"
  shows "handleStyleTransfer_begin quickMode s =
           (s\<lparr>isProcessing := True, error := None, processingProgress := 0\<rparr>,
            Some (if quickMode
                  then quickTransfer (TransferData (path c) (path st) (styleIntensity s) None)
                  else styleTransfer
                         (TransferData (path c) (path st) (styleIntensity s) (Some (quality s)))))
       \<and> transferDisabled s
       \<and> clickTransfer quickMode s = (s, None)
       \<and> length (pending (ui_run initial_world events)) \<le> 1"
proof -
  have "single_flight (ui_run initial_world events)"
    using single_flight_initial by (rule single_flight_run)
  then have "length (pending (ui_run initial_world events)) \<le> 1"
    by (simp add: single_flight_def)
  moreover have "transferDisabled s" using assms(3) by (simp add: transferDisabled_def)
  ultimately show ?thesis
    using begin_with_both_images[OF assms(1,2), of quickMode]
    by (simp add: clickTransfer_def)
qed

theorem single_flight_kept_by_disabled_buttons_witness:
  "contentImage processing_state = Some cat_ref \<and> styleImage processing_state = Some vangogh_ref
   \<and> isProcessing processing_state
   \<and> clickTransfer True processing_state = (processing_state, None)
   \<and> snd (handleStyleTransfer_begin True processing_state)
       = Some (quickTransfer (TransferData ''uploads/cat.png'' ''uploads/vangogh.png'' (Num 1) None))
   \<and> length (pending (ui_run initial_world [ClickTransfer False, ClickTransfer True])) \<le> 1"
proof -
  have h: "contentImage processing_state = Some cat_ref"
    "styleImage processing_state = Some vangogh_ref" "isProcessing processing_state"
    by (simp_all add: processing_state_def ready_state_def)
  from single_flight_kept_by_disabled_buttons[OF h, of True "[ClickTransfer False, ClickTransfer True]"]
  show ?thesis using h
    by (simp add: cat_ref_def vangogh_ref_def processing_state_def ready_state_def
          initial_state_def)
qed

subsection \<open>A transfer that fails\<close>

lemma transfer_keeps_images:
  "contentImage (fst (handleStyleTransfer quickMode env resp s)) = contentImage s"
  "styleImage (fst (handleStyleTransfer quickMode env resp s)) = styleImage s"
  by (simp_all add: handleStyleTransfer_def handleStyleTransfer_begin_def
        handleStyleTransfer_resume_def Let_def split: option.splits response.splits)

text \<open>A rejected request (network error, timeout, status outside 2xx) sets the reason.\<close>

lemma rejected_transfer_sets_reason:
  assumes "contentImage s = Some c" "styleImage s = Some st"
  shows "error (fst (handleStyleTransfer quickMode env (Rejected msg) s))
           = Some (''Style transfer failed: '' @ msg)
       \<and> \<not> isProcessing (fst (handleStyleTransfer quickMode env (Rejected msg) s))
       \<and> snd (handleStyleTransfer quickMode env (Rejected msg) s)
           = snd (handleStyleTransfer_begin quickMode s)"
  using assms
  by (simp add: handleStyleTransfer_def handleStyleTransfer_begin_def
        handleStyleTransfer_resume_def)

text \<open>A resolved request without \<open>success\<close> sets no reason and no result.\<close>

lemma refused_transfer_sets_nothing:
  assumes "contentImage s = Some c" "styleImage s = Some st" "\<not> success p"
  shows "fst (handleStyleTransfer quickMode env (Resolved p) s)
           = s\<lparr>isProcessing := False, error := None, processingProgress := 0\<rparr>"
  using assms
  by (simp add: handleStyleTransfer_def handleStyleTransfer_begin_def
        handleStyleTransfer_resume_def)

text \<open>
  A transfer that succeeds: the standard request for \<open>cat.png\<close> and \<open>vangogh.png\<close>,
  answered with \<open>result_001.png\<close> after 12.3 seconds, stores the result with the URL of
  the image under the default base URL.
\<close>

lemma successful_transfer_scenario:
  "fst (handleStyleTransfer False None
          (Resolved \<lparr>success = True, output_image = ''result_001.png'',
                       processing_time = ''12.3s''\<rparr>) ready_state)
     = ready_state\<lparr>resultImage :=
                      Some \<lparr>result_filename = ''result_001.png'',
                            url = ''http://localhost:5000/api/image/result_001.png'',
                            processingTime = ''12.3s''\<rparr>,
                    processingProgress := 100\<rparr>"
  by (simp add: handleStyleTransfer_def handleStyleTransfer_begin_def
        handleStyleTransfer_resume_def getImageUrl_def API_BASE_URL_def ready_state_def
        initial_state_def cat_ref_def vangogh_ref_def)

text \<open>
  Claim C3. The claim holds for a rejected request (\<open>rejected_transfer_sets_reason\<close>,
  \<open>transfer_keeps_images\<close>). For a resolved response with \<open>success: false\<close> the handler
  has no branch: with both images uploaded, the standard transfer ends in the state it
  started from, with no error and no result, after sending its request.
\<close>

theorem refused_transfer_gives_no_reason:
  "handleStyleTransfer False None (Resolved refused_payload) ready_state
     = (ready_state,
        Some (styleTransfer (TransferData ''uploads/cat.png'' ''uploads/vangogh.png'' (Num 1)
                               (Some ''standard''))))
   \<and> error (fst (handleStyleTransfer False None (Resolved refused_payload) ready_state)) = None
   \<and> resultImage (fst (handleStyleTransfer False None (Resolved refused_payload) ready_state))
       = None"
  by (simp add: handleStyleTransfer_def handleStyleTransfer_begin_def
        handleStyleTransfer_resume_def refused_payload_def ready_state_def initial_state_def
        cat_ref_def vangogh_ref_def)

subsection \<open>The intensity sent\<close>

text \<open>
  Claim C7, as stated, fails: with both images uploaded and the intensity at 2.5 the
  standard transfer is sent, carrying 2.5, and no error is set.
\<close>

theorem intensity_out_of_range_is_sent:
  "styleIntensity intense_state = Num (5 / 2)
   \<and> snd (handleStyleTransfer_begin False intense_state)
       = Some (styleTransfer (TransferData ''uploads/cat.png'' ''uploads/vangogh.png''
                                (Num (5 / 2)) (Some ''standard'')))
   \<and> error (fst (handleStyleTransfer_begin False intense_state)) = None"
  by (simp add: handleStyleTransfer_begin_def intense_state_def setStyleIntensity_def
        ready_state_def initial_state_def cat_ref_def vangogh_ref_def)

text \<open>
  Claim C7, amended. The handler does not look at the intensity: for every value \<open>v\<close> the
  slider's handler stores, in range or not, a submit with both images present sends the
  request of its mode with \<open>v\<close> as its intensity and sets no error. The range from 0.1 to
  2.0 is that of the slider control alone.
\<close>

theorem intensity_is_sent_unchecked:
  assumes "contentImage s = Some c" "styleImage s = Some st"
  shows "styleIntensity (setStyleIntensity v s) = v
       \<and> snd (handleStyleTransfer_begin False (setStyleIntensity v s))
           = Some (styleTransfer (TransferData (path c) (path st) v (Some (quality s))))
       \<and> snd (handleStyleTransfer_begin True (setStyleIntensity v s))
           = Some (quickTransfer (TransferData (path c) (path st) v None))
       \<and> error (fst (handleStyleTransfer_begin quickMode (setStyleIntensity v s))) = None"
  using assms by (simp add: handleStyleTransfer_begin_def setStyleIntensity_def)

theorem intensity_is_sent_unchecked_witness:
  "contentImage ready_state = Some cat_ref \<and> styleImage ready_state = Some vangogh_ref
   \<and> snd (handleStyleTransfer_begin True (setStyleIntensity (Num (1 / 20)) ready_state))
       = Some (quickTransfer (TransferData ''uploads/cat.png'' ''uploads/vangogh.png''
                                (Num (1 / 20)) None))
   \<and> snd (handleStyleTransfer_begin False (setStyleIntensity NaN ready_state))
       = Some (styleTransfer (TransferData ''uploads/cat.png'' ''uploads/vangogh.png'' NaN
                                (Some ''standard'')))"
proof -
  have h: "contentImage ready_state = Some cat_ref" "styleImage ready_state = Some vangogh_ref"
    by (simp_all add: ready_state_def)
  from intensity_is_sent_unchecked[OF h, of "Num (1 / 20)"]
       intensity_is_sent_unchecked[OF h, of NaN]
  show ?thesis using h
    by (simp add: cat_ref_def vangogh_ref_def ready_state_def initial_state_def)
qed

subsection \<open>Preview handles\<close>

text \<open>A revoked URL is not live, and \<open>downloadImage\<close> leaves no URL behind.\<close>

lemma revoked_is_not_live: "u \<notin> set (revokeObjectURL u live)"
  by (simp add: revokeObjectURL_def)

lemma downloadImage_releases:
  "fresh \<notin> set live \<Longrightarrow> downloadImage fn (Resolved b) fresh live = Inr live"
  by (simp add: downloadImage_def createObjectURL_def revokeObjectURL_def)

lemma upload_live:
  "fst (snd (handleContentUpload f (Resolved p) fresh (s, live))) = fresh # live"
  "fst (snd (handleStyleUpload f (Resolved p) fresh (s, live))) = fresh # live"
  "fst (snd (handleContentUpload f (Rejected msg) fresh (s, live))) = live"
  "fst (snd (handleStyleUpload f (Rejected msg) fresh (s, live))) = live"
  by (simp_all add: handleContentUpload_def handleStyleUpload_def
        handleContentUpload_begin_def handleStyleUpload_begin_def
        handleContentUpload_settle_def handleStyleUpload_settle_def createObjectURL_def)

lemma live_step: "set (liveURLs w) \<subseteq> set (liveURLs (ui_step w e))"
proof (cases e)
  case (ContentUploadSettles resp fresh)
  then show ?thesis
    by (cases resp) (auto simp: handleContentUpload_settle_def createObjectURL_def)
next
  case (StyleUploadSettles resp fresh)
  then show ?thesis
    by (cases resp) (auto simp: handleStyleUpload_settle_def createObjectURL_def)
next
  case (ClickTransfer quickMode)
  then show ?thesis by (simp split: prod.splits option.splits)
next
  case (TransferSettles env resp)
  then show ?thesis by (simp split: list.splits)
qed simp_all

lemma live_run: "set (liveURLs w) \<subseteq> set (liveURLs (ui_run w events))"
  unfolding ui_run_def
proof (induction events arbitrary: w)
  case Nil
  show ?case by simp
next
  case (Cons e events)
  have "set (liveURLs w) \<subseteq> set (liveURLs (ui_step w e))" by (rule live_step)
  also have "\<dots> \<subseteq> set (liveURLs (foldl ui_step (ui_step w e) events))" by (rule Cons.IH)
  finally show ?case by simp
qed

lemma live_count_step: "length (liveURLs w) \<le> length (liveURLs (ui_step w e))"
proof (cases e)
  case (ContentUploadSettles resp fresh)
  then show ?thesis
    by (cases resp) (auto simp: handleContentUpload_settle_def createObjectURL_def)
next
  case (StyleUploadSettles resp fresh)
  then show ?thesis
    by (cases resp) (auto simp: handleStyleUpload_settle_def createObjectURL_def)
next
  case (ClickTransfer quickMode)
  then show ?thesis by (simp split: prod.splits option.splits)
next
  case (TransferSettles env resp)
  then show ?thesis by (simp split: list.splits)
qed simp_all

lemma live_count_run: "length (liveURLs w) \<le> length (liveURLs (ui_run w events))"
  unfolding ui_run_def
proof (induction events arbitrary: w)
  case Nil
  show ?case by simp
next
  case (Cons e events)
  have "length (liveURLs w) \<le> length (liveURLs (ui_step w e))" by (rule live_count_step)
  also have "\<dots> \<le> length (liveURLs (foldl ui_step (ui_step w e) events))" by (rule Cons.IH)
  finally show ?case by simp
qed

text \<open>
  Claim C9, as stated, fails. With the previews \<open>blob:1\<close> (content) and \<open>blob:2\<close> (style)
  live, a new content image replaces the old one and \<open>blob:1\<close> stays live beside the new
  \<open>blob:3\<close>; a reset clears both images and leaves both of their previews live.
\<close>

theorem replaced_preview_stays_live:
  "contentImage ready_state = Some cat_ref \<and> preview cat_ref = ''blob:1''
   \<and> map_option preview
        (contentImage (fst (handleContentUpload ''dog.png'' (Resolved dog_payload) ''blob:3''
                              (ready_state, [''blob:2'', ''blob:1'']))))
       = Some ''blob:3''
   \<and> fst (snd (handleContentUpload ''dog.png'' (Resolved dog_payload) ''blob:3''
                  (ready_state, [''blob:2'', ''blob:1''])))
       = [''blob:3'', ''blob:2'', ''blob:1'']
   \<and> contentImage (app (ui_step ready_world ClickReset)) = None
   \<and> styleImage (app (ui_step ready_world ClickReset)) = None
   \<and> liveURLs (ui_step ready_world ClickReset) = [''blob:2'', ''blob:1'']"
  by (simp add: handleContentUpload_def handleContentUpload_begin_def
        handleContentUpload_settle_def createObjectURL_def ready_state_def ready_world_def
        initial_state_def cat_ref_def vangogh_ref_def dog_payload_def handleReset_def)

text \<open>
  Claim C9, amended. No upload and no reset releases a preview handle. A resolved upload
  makes the new handle live and leaves every handle that was live in place, the one of
  the image it replaces included; a rejected upload and a reset leave the live handles
  as they are; along every sequence of events of the page every handle that was live
  stays live and the number of live handles never goes down.
\<close>

theorem previews_are_never_released:
  "fst (snd (handleContentUpload f (Resolved p) fresh (s, live))) = fresh # live
   \<and> fst (snd (handleStyleUpload f (Resolved p) fresh (s, live))) = fresh # live
   \<and> fst (snd (handleContentUpload f (Rejected msg) fresh (s, live))) = live
   \<and> fst (snd (handleStyleUpload f (Rejected msg) fresh (s, live))) = live
   \<and> liveURLs (ui_step w ClickReset) = liveURLs w
   \<and> set (liveURLs w) \<subseteq> set (liveURLs (ui_run w events))
   \<and> length (liveURLs w) \<le> length (liveURLs (ui_run w events))"
proof -
  have "liveURLs (ui_step w ClickReset) = liveURLs w" by simp
  moreover have "set (liveURLs w) \<subseteq> set (liveURLs (ui_run w events))" by (rule live_run)
  moreover have "length (liveURLs w) \<le> length (liveURLs (ui_run w events))" by (rule live_count_run)
  ultimately show ?thesis by (simp add: upload_live)
qed

section \<open>Properties of the gallery\<close>

text \<open>
  Claim C8, as stated, fails. With the preview of \<open>b.png\<close> open, a confirmed and successful
  delete of \<open>a.png\<close> closes it: the selection is cleared although the selected entry was
  not the one deleted. The same happens when the delete of \<open>a.png\<close> was started from the
  grid and the preview of \<open>b.png\<close> was opened while the request was pending.
\<close>

theorem delete_of_other_entry_clears_selection:
  "selectedImage gallery_ab = Some entry_b \<and> entry_filename entry_b \<noteq> ''a.png''
   \<and> selectedImage (fst (handleDelete True (Resolved ()) ''a.png'' gallery_ab)) = None
   \<and> images (fst (handleDelete True (Resolved ()) ''a.png'' gallery_ab)) = [entry_b]
   \<and> selectedImage
         (fst (handleDelete_settle (Resolved ()) ''a.png'' [entry_a, entry_b] gallery_ab)) = None"
  by (simp add: handleDelete_def handleDelete_settle_def gallery_ab_def entry_a_def entry_b_def)

text \<open>
  Claim C8, amended. After every confirmed delete that succeeds remotely the selection is
  empty, whether or not the deleted entry was the selected one, and the cached list is
  the old list without the entries of that filename: an entry is in the new list exactly
  when it was in the old one under another filename, and the order is kept. One DELETE
  request is sent and no alert is shown.
\<close>

theorem successful_delete_evicts_and_clears:
  "selectedImage (fst (handleDelete True (Resolved r) fn g)) = None
   \<and> images (fst (handleDelete True (Resolved r) fn g))
       = filter (\<lambda>img. entry_filename img \<noteq> fn) (images g)
   \<and> (\<forall>img. img \<in> set (images (fst (handleDelete True (Resolved r) fn g)))
              \<longleftrightarrow> img \<in> set (images g) \<and> entry_filename img \<noteq> fn)
   \<and> loading (fst (handleDelete True (Resolved r) fn g)) = loading g
   \<and> snd (handleDelete True (Resolved r) fn g) = ([deleteFromGallery fn], [])
   \<and> selectedImage (fst (handleDelete_settle (Resolved r) fn captured g)) = None"
proof -
  let ?g' = "fst (handleDelete True (Resolved r) fn g)"
  have g': "?g' = g\<lparr>images := filter (\<lambda>img. entry_filename img \<noteq> fn) (images g),
                      selectedImage := None\<rparr>"
    by (simp add: handleDelete_def handleDelete_settle_def)
  have "\<forall>img. img \<in> set (images ?g') \<longleftrightarrow> img \<in> set (images g) \<and> entry_filename img \<noteq> fn"
    unfolding g' by simp
  moreover have "snd (handleDelete True (Resolved r) fn g) = ([deleteFromGallery fn], [])"
    by (simp add: handleDelete_def handleDelete_settle_def)
  moreover have "selectedImage (fst (handleDelete_settle (Resolved r) fn captured g)) = None"
    by (simp add: handleDelete_settle_def)
  moreover have "selectedImage ?g' = None" "loading ?g' = loading g"
      "images ?g' = filter (\<lambda>img. entry_filename img \<noteq> fn) (images g)"
    unfolding g' by simp_all
  ultimately show ?thesis by blast
qed

text \<open>
  Claim C10. When the DELETE request of a confirmed delete is rejected, the gallery state
  is the one before the call, so the cached list still holds the entry and the selection
  is kept; the request was sent and the alert \<open>Failed to delete image\<close> is shown. The
  same holds when other updates ran while the request was pending: the rejection sets
  nothing.
\<close>

theorem failed_delete_changes_nothing:
  "handleDelete True (Rejected msg) fn g = (g, [deleteFromGallery fn], [''Failed to delete image''])
   \<and> images (fst (handleDelete True (Rejected msg) fn g)) = images g
   \<and> selectedImage (fst (handleDelete True (Rejected msg) fn g)) = selectedImage g
   \<and> handleDelete_settle (Rejected msg) fn captured g = (g, [''Failed to delete image''])"
  by (simp add: handleDelete_def handleDelete_settle_def)

text \<open>A delete that the user does not confirm sends nothing and changes nothing.\<close>

lemma unconfirmed_delete: "handleDelete False resp fn g = (g, [], [])"
  by (simp add: handleDelete_def)

end
